theory Spec2Isabelle
  imports
    Complex_Main
    "HOL-Library.Sublist"
    "HOL-Library.Char_ord"
    "HOL-Library.List_Lexorder"
    "HOL-Library.AList"
    "HOL-Library.Multiset"
    "HOL-Library.Word"
begin

section \<open>Python strings\<close>

text \<open>
  A Python \<open>str\<close> is a sequence of code points. The model is \<open>string\<close>, one \<open>char\<close> per
  code point, which covers the code points 0..255. On that range \<open>str.lower\<close> maps
  \<open>A..Z\<close> and the Latin-1 capitals (192..222 without the multiplication sign 215) to the
  code point 32 above and keeps the length of the text; \<open>str.isspace\<close> holds for the
  code points 9..13, 28..32, 133 and 160. Beyond that range lower-casing can change the
  length of a text; the step that depends on it, the slicing of step 5, is given for all
  code points in a section of its own.
\<close>

definition lower_char :: "char \<Rightarrow> char" where
  "lower_char c =
     (let n = (of_char c :: nat) in
      if (65 \<le> n \<and> n \<le> 90) \<or> (192 \<le> n \<and> n \<le> 222 \<and> n \<noteq> 215)
      then char_of (n + 32) else c)"

definition lower :: "string \<Rightarrow> string" where
  "lower s = map lower_char s"

definition isspace :: "char \<Rightarrow> bool" where
  "isspace c =
     (let n = (of_char c :: nat) in
      (9 \<le> n \<and> n \<le> 13) \<or> (28 \<le> n \<and> n \<le> 32) \<or> n = 133 \<or> n = 160)"

text \<open>\<open>s.strip()\<close>: leading and trailing white space removed.\<close>

definition strip :: "string \<Rightarrow> string" where
  "strip s = rev (dropWhile isspace (rev (dropWhile isspace s)))"

text \<open>
  \<open>s.find(sub)\<close>: the lowest index at which \<open>sub\<close> occurs in \<open>s\<close>; Python's \<open>-1\<close> is
  \<open>None\<close>.
\<close>

fun py_find :: "string \<Rightarrow> string \<Rightarrow> nat option" where
  "py_find sub [] = (if sub = [] then Some 0 else None)"
| "py_find sub (c # cs) =
     (if prefix sub (c # cs) then Some 0 else map_option Suc (py_find sub cs))"

text \<open>\<open>sub in s\<close>, and a regular-expression search for an escaped literal.\<close>

definition contains :: "string \<Rightarrow> string \<Rightarrow> bool" where
  "contains sub s = (py_find sub s \<noteq> None)"

text \<open>
  \<open>s.split()\<close>: the maximal runs of characters that are not white space. The first
  argument is the word being read, in reverse.
\<close>

primrec split_words :: "string \<Rightarrow> string \<Rightarrow> string list" where
  "split_words cur [] = (if cur = [] then [] else [rev cur])"
| "split_words cur (c # cs) =
     (if isspace c
      then (if cur = [] then split_words [] cs else rev cur # split_words [] cs)
      else split_words (c # cur) cs)"

definition str_split :: "string \<Rightarrow> string list" where
  "str_split s = split_words [] s"

text \<open>The separators of the pattern \<open>[,\n;]+\<close>.\<close>

definition is_sep :: "char \<Rightarrow> bool" where
  "is_sep c = (c = CHR '','' \<or> c = CHR 0x0A \<or> c = CHR '';'')"

text \<open>
  \<open>re.split(r'[,\n;]+', s)\<close>: the text is cut at every maximal run of separators; a run
  at the start or at the end of the text leaves an empty piece there, and a text with no
  separator is returned as its only piece.
\<close>

function re_split :: "string \<Rightarrow> string list" where
  "re_split s =
     (case dropWhile (\<lambda>c. \<not> is_sep c) s of
        [] \<Rightarrow> [s]
      | _ # rest \<Rightarrow> takeWhile (\<lambda>c. \<not> is_sep c) s # re_split (dropWhile is_sep rest))"
  by pat_completeness auto
termination
proof (relation "measure length")
  show "wf (measure (length :: string \<Rightarrow> nat))" by simp
next
  fix s :: string and x rest
  assume a: "dropWhile (\<lambda>c. \<not> is_sep c) s = x # rest"
  have "length (dropWhile is_sep rest) \<le> length rest"
    by (rule length_dropWhile_le)
  also have "\<dots> < length (dropWhile (\<lambda>c. \<not> is_sep c) s)"
    using a by simp
  also have "\<dots> \<le> length s"
    by (rule length_dropWhile_le)
  finally show "(dropWhile is_sep rest, s) \<in> measure length" by simp
qed

section \<open>Ingredient extraction (\<open>app.py\<close>, step 5)\<close>

definition markers :: "string list" where
  "markers = [''ingredients'', ''ingredients as served'', ''ingredient'']"

definition stop_tokens :: "string list" where
  "stop_tokens = [''nutritional'', ''nutrition'', [CHR 0x0A, CHR 0x0A], ''typical values'']"

text \<open>
  The inner loop over the stop tokens: the first token of the list found in the
  lower-cased snippet sets \<open>stop_idx\<close> and ends the loop.
\<close>

fun find_stop :: "string list \<Rightarrow> string \<Rightarrow> nat option" where
  "find_stop [] snippet = None"
| "find_stop (t # ts) snippet =
     (case py_find t (lower snippet) of
        Some si \<Rightarrow> Some si
      | None \<Rightarrow> find_stop ts snippet)"

text \<open>\<open>ingredients_text = snippet if stop_idx is None else snippet[:stop_idx]\<close>\<close>

definition cut_at_stop :: "string \<Rightarrow> string" where
  "cut_at_stop snippet =
     (case find_stop stop_tokens snippet of
        None \<Rightarrow> snippet
      | Some stop_idx \<Rightarrow> take stop_idx snippet)"

text \<open>
  The outer loop over the markers: the first marker of the list found in the lower-cased
  text cuts the snippet out of the original text and ends the loop; \<open>ingredients_text\<close>
  stays empty when no marker is found.
\<close>

fun scan_markers :: "string list \<Rightarrow> string \<Rightarrow> string" where
  "scan_markers [] ocr = []"
| "scan_markers (marker # ms) ocr =
     (case py_find marker (lower ocr) of
        None \<Rightarrow> scan_markers ms ocr
      | Some idx \<Rightarrow> cut_at_stop (drop idx ocr))"

definition extract_ingredients :: "string \<Rightarrow> string" where
  "extract_ingredients ocr =
     (let ingredients_text = scan_markers markers ocr in
      if ingredients_text = [] then ocr else ingredients_text)"

text \<open>\<open>[t.strip() for t in re.split(r'[,\n;]+', ingredients_text) if t.strip()]\<close>\<close>

definition tokenize :: "string \<Rightarrow> string list" where
  "tokenize ingredients_text =
     map strip (filter (\<lambda>t. strip t \<noteq> []) (re_split ingredients_text))"

section \<open>Ingredient extraction on all code points\<close>

text \<open>
  The text that Tesseract returns is not confined to the code points below 256, and
  \<open>str.lower\<close> keeps the length of a text on that range only: \<open>U+0130\<close>, the capital I
  with a dot, becomes two code points. Step 5 slices the original text with indices that
  were found in the lower-cased text. For the statement about the cut, step 5 is given
  here once more on lists of code points, with \<open>str.lower\<close> as the parameter \<open>lw\<close>: its
  tables belong to the interpreter. The functions follow the ones above line by line.
\<close>

type_synonym ustring = "nat list"

definition code_points :: "string \<Rightarrow> ustring" where
  "code_points s = map of_char s"

fun u_find :: "ustring \<Rightarrow> ustring \<Rightarrow> nat option" where
  "u_find sub [] = (if sub = [] then Some 0 else None)"
| "u_find sub (c # cs) =
     (if prefix sub (c # cs) then Some 0 else map_option Suc (u_find sub cs))"


definition u_markers :: "ustring list" where
  "u_markers = map code_points markers"

definition u_stop_tokens :: "ustring list" where
  "u_stop_tokens = map code_points stop_tokens"

fun u_find_stop :: "(ustring \<Rightarrow> ustring) \<Rightarrow> ustring list \<Rightarrow> ustring \<Rightarrow> nat option" where
  "u_find_stop lw [] snippet = None"
| "u_find_stop lw (t # ts) snippet =
     (case u_find t (lw snippet) of
        Some si \<Rightarrow> Some si
      | None \<Rightarrow> u_find_stop lw ts snippet)"

definition u_cut_at_stop :: "(ustring \<Rightarrow> ustring) \<Rightarrow> ustring \<Rightarrow> ustring" where
  "u_cut_at_stop lw snippet =
     (case u_find_stop lw u_stop_tokens snippet of
        None \<Rightarrow> snippet
      | Some stop_idx \<Rightarrow> take stop_idx snippet)"

fun u_scan_markers :: "(ustring \<Rightarrow> ustring) \<Rightarrow> ustring list \<Rightarrow> ustring \<Rightarrow> ustring" where
  "u_scan_markers lw [] ocr = []"
| "u_scan_markers lw (marker # ms) ocr =
     (case u_find marker (lw ocr) of
        None \<Rightarrow> u_scan_markers lw ms ocr
      | Some idx \<Rightarrow> u_cut_at_stop lw (drop idx ocr))"

definition u_extract_ingredients :: "(ustring \<Rightarrow> ustring) \<Rightarrow> ustring \<Rightarrow> ustring" where
  "u_extract_ingredients lw ocr =
     (let ingredients_text = u_scan_markers lw u_markers ocr in
      if ingredients_text = [] then ocr else ingredients_text)"

section \<open>Python floats\<close>

text \<open>
  A Python \<open>float\<close> is an IEEE 754 double: a finite number, an infinity or NaN. A finite
  float is carried by its value (the two zeros are one value, and the statements below
  hold for every real value, a double or not); the result of an operation
  is the exact result rounded to the nearest double, a tie to the one with an even
  significand, and to an infinity when the rounded value reaches \<open>2 ^ 1024\<close>, that is
  the exponent 1024. The doubles around \<open>x\<close> are the multiples of \<open>2 ^ (e - 52)\<close>, where
  \<open>2 ^ e \<le> \<bar>x\<bar> < 2 ^ (e + 1)\<close> and \<open>e\<close> is at least \<open>-1022\<close>.
\<close>

datatype pyfloat = Fin real | PosInf | NegInf | NaN

definition pow2 :: "int \<Rightarrow> real" where
  "pow2 e = (if 0 \<le> e then 2 ^ nat e else 1 / 2 ^ nat (- e))"

text \<open>The exponent \<open>e\<close> with \<open>2 ^ e \<le> a < 2 ^ (e + 1)\<close>, for a positive \<open>a\<close>.\<close>

function binade :: "real \<Rightarrow> int" where
  "binade a =
     (if 2 \<le> a then binade (a / 2) + 1
      else if 0 < a \<and> a < 1 then binade (a * 2) - 1
      else 0)"
  by pat_completeness auto
termination
proof (relation "measure (\<lambda>a. if 1 \<le> a then nat \<lfloor>a\<rfloor> else nat \<lceil>1 / a\<rceil>)")
  show "wf (measure (\<lambda>a :: real. if 1 \<le> a then nat \<lfloor>a\<rfloor> else nat \<lceil>1 / a\<rceil>))" by simp
next
  fix a :: real
  assume a: "2 \<le> a"
  have "\<lfloor>a / 2\<rfloor> \<le> \<lfloor>a - 1\<rfloor>" using a by (intro floor_mono) simp
  then have "\<lfloor>a / 2\<rfloor> < \<lfloor>a\<rfloor>" by simp
  moreover have "0 < \<lfloor>a\<rfloor>" using a by simp
  ultimately show "(a / 2, a) \<in> measure (\<lambda>a. if 1 \<le> a then nat \<lfloor>a\<rfloor> else nat \<lceil>1 / a\<rceil>)"
    using a by simp
next
  fix a :: real
  assume "\<not> 2 \<le> a" and b: "0 < a \<and> a < 1"
  show "(a * 2, a) \<in> measure (\<lambda>a. if 1 \<le> a then nat \<lfloor>a\<rfloor> else nat \<lceil>1 / a\<rceil>)"
  proof (cases "1 \<le> a * 2")
    case True
    have "a * 2 < 2" using b by simp
    then have "\<lfloor>a * 2\<rfloor> \<le> 1" by (simp add: floor_le_iff)
    moreover have "1 < 1 / a" using b by simp
    then have "2 \<le> \<lceil>1 / a\<rceil>" by (simp add: le_ceiling_iff)
    ultimately have "\<lfloor>a * 2\<rfloor> < \<lceil>1 / a\<rceil>" by linarith
    then show ?thesis using True b by simp
  next
    case False
    then have u: "2 < 1 / a" using b by (simp add: field_simps)
    have "1 / (a * 2) \<le> 1 / a - 1" using u b by (simp add: field_simps)
    then have "\<lceil>1 / (a * 2)\<rceil> \<le> \<lceil>1 / a - 1\<rceil>" by (rule ceiling_mono)
    then have "\<lceil>1 / (a * 2)\<rceil> < \<lceil>1 / a\<rceil>" by simp
    moreover have "0 < \<lceil>1 / a\<rceil>" using u b by (simp add: less_ceiling_iff)
    ultimately show ?thesis using False b by simp
  qed
qed

text \<open>The nearest integer, a tie to the even one.\<close>

definition round_even :: "real \<Rightarrow> int" where
  "round_even x =
     (let f = \<lfloor>x\<rfloor>; d = x - of_int f
      in if d < 1 / 2 then f else if 1 / 2 < d then f + 1 else if even f then f else f + 1)"

text \<open>The double nearest to a real number; also what \<open>float("30.1")\<close> is.\<close>

definition round64 :: "real \<Rightarrow> pyfloat" where
  "round64 x =
     (let e = max (binade \<bar>x\<bar>) (- 1022) - 52;
          y = of_int (round_even (x / pow2 e)) * pow2 e
      in if 1024 \<le> binade \<bar>y\<bar> then (if 0 < x then PosInf else NegInf) else Fin y)"

text \<open>\<open>a + b\<close>, \<open>-a\<close> and \<open>a - b\<close> on floats, and the comparison \<open>a > 0\<close>.\<close>

fun fadd :: "pyfloat \<Rightarrow> pyfloat \<Rightarrow> pyfloat" where
  "fadd (Fin x) (Fin y) = round64 (x + y)"
| "fadd (Fin x) PosInf = PosInf"
| "fadd (Fin x) NegInf = NegInf"
| "fadd PosInf (Fin y) = PosInf"
| "fadd PosInf PosInf = PosInf"
| "fadd PosInf NegInf = NaN"
| "fadd NegInf (Fin y) = NegInf"
| "fadd NegInf NegInf = NegInf"
| "fadd NegInf PosInf = NaN"
| "fadd NaN b = NaN"
| "fadd (Fin x) NaN = NaN"
| "fadd PosInf NaN = NaN"
| "fadd NegInf NaN = NaN"

fun fneg :: "pyfloat \<Rightarrow> pyfloat" where
  "fneg (Fin x) = Fin (- x)"
| "fneg PosInf = NegInf"
| "fneg NegInf = PosInf"
| "fneg NaN = NaN"

definition fsub :: "pyfloat \<Rightarrow> pyfloat \<Rightarrow> pyfloat" where
  "fsub a b = fadd a (fneg b)"

fun float_gt0 :: "pyfloat \<Rightarrow> bool" where
  "float_gt0 (Fin x) = (0 < x)"
| "float_gt0 PosInf = True"
| "float_gt0 NegInf = False"
| "float_gt0 NaN = False"

text \<open>
  \<open>sum(xs)\<close> on a list of floats: the items are added one after the other to the start
  value \<open>0\<close>, each sum rounded. This is the built-in of CPython up to version 3.11; later
  versions carry a correction for the rounding errors along, which can change the last
  bit of the sum.
\<close>

definition float_sum :: "pyfloat list \<Rightarrow> pyfloat" where
  "float_sum xs = foldl fadd (Fin 0) xs"

section \<open>Allergens and health score (\<open>app.py\<close>, step 6)\<close>

text \<open>
  The reference table \<open>ingredientsv1.csv\<close> as \<open>pandas\<close> reads it: the first column holds
  the ingredient names, and the table may have a column \<open>impact\<close>. A cell of that column
  is the float that \<open>astype(float)\<close> makes of it (a finite number, an infinity or NaN), or
  a text that \<open>astype(float)\<close> rejects with an exception.
\<close>

datatype cell = Num pyfloat | NotNum

datatype dataframe = Plain "string list" | WithImpact "(string \<times> cell) list"

text \<open>
  The file is not there, or \<open>pd.read_csv\<close> raises (the handler around the table stage
  logs the exception and goes on), or a table is loaded.
\<close>

datatype csv_source = NotFound | ReadFails | Loaded dataframe

text \<open>A Python number: \<open>health_score\<close> is an \<open>int\<close> or a \<open>float\<close>.\<close>

datatype number = PyInt int | PyFloat pyfloat

text \<open>
  \<open>int(x)\<close> cuts the fraction of a finite float off, towards zero, and raises
  \<open>OverflowError\<close> for an infinity and \<open>ValueError\<close> for NaN; \<open>Inl\<close> carries the text of
  the exception.
\<close>

definition trunc :: "real \<Rightarrow> int" where
  "trunc x = (if 0 \<le> x then floor x else ceiling x)"

fun py_int :: "number \<Rightarrow> string + int" where
  "py_int (PyInt n) = Inr n"
| "py_int (PyFloat (Fin x)) = Inr (trunc x)"
| "py_int (PyFloat PosInf) = Inl ''cannot convert float infinity to integer''"
| "py_int (PyFloat NegInf) = Inl ''cannot convert float infinity to integer''"
| "py_int (PyFloat NaN) = Inl ''cannot convert float NaN to integer''"

text \<open>
  \<open>df_ing['ingredient_lc'].str.contains(re.escape(tl))\<close> on one row: the lower-cased
  token occurs in the lower-cased name.
\<close>

definition row_matches :: "string \<Rightarrow> string \<Rightarrow> bool" where
  "row_matches token_lc name = contains token_lc (lower name)"

text \<open>The first loop over the tokens: the names of the matching rows, token by token.\<close>

fun table_allergens :: "string list \<Rightarrow> string list \<Rightarrow> string list" where
  "table_allergens names [] = []"
| "table_allergens names (t # ts) =
     filter (row_matches (lower t)) names @ table_allergens names ts"

text \<open>\<open>rows['impact'].astype(float).tolist()\<close>; \<open>None\<close> is the exception.\<close>

fun to_floats :: "cell list \<Rightarrow> pyfloat list option" where
  "to_floats [] = Some []"
| "to_floats (Num x # cs) = map_option ((#) x) (to_floats cs)"
| "to_floats (NotNum # cs) = None"

text \<open>The second loop over the tokens: the weights of the matching rows.\<close>

fun table_impacts :: "(string \<times> cell) list \<Rightarrow> string list \<Rightarrow> pyfloat list option" where
  "table_impacts rows [] = Some []"
| "table_impacts rows (t # ts) =
     (case to_floats (map snd (filter (\<lambda>r. row_matches (lower t) (fst r)) rows)) of
        None \<Rightarrow> None
      | Some xs \<Rightarrow> map_option ((@) xs) (table_impacts rows ts))"

text \<open>
  \<open>max(0, 100 - sum(impacts))\<close> on a list that is not empty: the difference is a float,
  and \<open>max\<close> keeps the integer \<open>0\<close> unless the float is greater; NaN is not greater.
\<close>

definition impact_score :: "pyfloat list \<Rightarrow> number" where
  "impact_score impacts =
     (let x = fsub (Fin 100) (float_sum impacts) in if float_gt0 x then PyFloat x else PyInt 0)"

text \<open>
  The table stage, inside its \<open>try\<close>: \<open>allergens_found\<close> and \<open>health_score\<close> (\<open>None\<close>
  when it was not set) as they stand after it. An exception in the second loop leaves the
  allergens of the first loop in place.
\<close>

fun table_stage :: "csv_source \<Rightarrow> string list \<Rightarrow> string list \<times> number option" where
  "table_stage NotFound toks = ([], None)"
| "table_stage ReadFails toks = ([], None)"
| "table_stage (Loaded (Plain names)) toks = (table_allergens names toks, None)"
| "table_stage (Loaded (WithImpact rows)) toks =
     (let allergens_found = table_allergens (map fst rows) toks in
      case table_impacts rows toks of
        None \<Rightarrow> (allergens_found, None)
      | Some impacts \<Rightarrow>
          (allergens_found, if impacts = [] then None else Some (impact_score impacts)))"

definition sample_allergens :: "string list" where
  "sample_allergens =
     [''milk'', ''egg'', ''eggs'', ''peanut'', ''peanuts'', ''soy'', ''wheat'', ''gluten'',
      ''fish'', ''shellfish'', ''tree nut'', ''almond'', ''cashew'']"

definition bad_words :: "string list" where
  "bad_words =
     [''sugar'', ''salt'', ''sodium'', ''hydrogenated'', ''trans'',
      ''palmitate'', ''fat'', ''fatty'', ''oil'', ''flavour'', ''flavor'']"

text \<open>Fallback allergen detection: for each token, each vocabulary term it contains.\<close>

fun fallback_allergens :: "string list \<Rightarrow> string list" where
  "fallback_allergens [] = []"
| "fallback_allergens (t # ts) =
     filter (\<lambda>a. contains a (lower t)) sample_allergens @ fallback_allergens ts"

text \<open>Fallback scoring: \<open>penalty += 5\<close> for each token and each bad word it contains.\<close>

definition token_penalty :: "string \<Rightarrow> int \<Rightarrow> int" where
  "token_penalty t penalty =
     fold (\<lambda>k p. if contains k (lower t) then p + 5 else p) bad_words penalty"

definition fallback_penalty :: "string list \<Rightarrow> int" where
  "fallback_penalty toks = fold token_penalty toks 0"

text \<open>
  \<open>allergens_found\<close> after the fallback detection, which runs when the table stage
  found nothing.
\<close>

definition allergens_found :: "csv_source \<Rightarrow> string list \<Rightarrow> string list" where
  "allergens_found csv toks =
     (let found = fst (table_stage csv toks) in
      if found = [] then fallback_allergens toks else found)"

text \<open>
  \<open>health_score\<close> after the fallback scoring, which runs when the table stage left it
  unset.
\<close>

definition health :: "csv_source \<Rightarrow> string list \<Rightarrow> number" where
  "health csv toks =
     (case snd (table_stage csv toks) of
        None \<Rightarrow> PyInt (max 0 (100 - fallback_penalty toks))
      | Some s \<Rightarrow> s)"

text \<open>
  The allergen and scoring stage on a token list, with the values
  \<open>sorted(set(allergens_found))\<close> and \<open>int(health_score)\<close> that go into the response;
  the second is the integer, or the exception that \<open>int\<close> raises.
\<close>

definition scorer :: "csv_source \<Rightarrow> string list \<Rightarrow> string list \<times> (string + int)" where
  "scorer csv toks = (sort (remdups (allergens_found csv toks)), py_int (health csv toks))"

text \<open>
  The entries of the response as the dictionary \<open>resp\<close> evaluates them, in its order. The
  last one, \<open>int(health_score)\<close>, is the only one that can raise: then \<open>health_score\<close>
  holds the text of the exception and the route sends no record.
\<close>

record prediction =
  ok :: bool
  ocr_text :: string
  ingredients_text :: string
  tokens :: "string list"
  allergens :: "string list"
  health_score :: "string + int"

text \<open>Steps 5 to 7 of \<open>predict\<close>: from the OCR text to the entries of the response.\<close>

definition analyse :: "csv_source \<Rightarrow> string \<Rightarrow> prediction" where
  "analyse csv ocr =
     (let ingredients = extract_ingredients ocr;
          toks = tokenize ingredients;
          (found, score) = scorer csv toks
      in \<lparr> ok = True,
           ocr_text = ocr,
           ingredients_text = ingredients,
           tokens = take 200 toks,
           allergens = found,
           health_score = score \<rparr>)"

section \<open>Images and the libraries around them\<close>

text \<open>
  A \<open>numpy\<close> array of \<open>uint8\<close> pixels: shape \<open>(height, width)\<close> with one channel, or
  \<open>(height, width, 3)\<close>. An array read from an image file has positive dimensions.
\<close>

record bitmap =
  height :: nat
  width :: nat
  channels :: nat
  pixels :: "8 word list"

datatype color_conversion = COLOR_RGB2BGR | COLOR_BGR2RGB | COLOR_BGR2GRAY | COLOR_GRAY2BGR

datatype interpolation = INTER_LINEAR | INTER_CUBIC

text \<open>
  OpenCV, Pillow and Tesseract are not part of the program; their functions are
  parameters of the model. \<open>imdecode\<close> is \<open>cv2.imdecode(buf, cv2.IMREAD_COLOR)\<close>, with
  \<open>None\<close> for an image it cannot read. \<open>image_open_rgb\<close> is
  \<open>np.array(Image.open(f).convert("RGB"))\<close> and \<open>image_to_string\<close> is
  \<open>pytesseract.image_to_string(image, config=c)\<close>; \<open>Inl\<close> carries the text of the
  exception they raise. \<open>adaptiveThreshold\<close> takes the source, the maximum, the block
  size and the constant (the method is Gaussian, the type binary, at both calls);
  \<open>threshold_otsu\<close> is \<open>cv2.threshold(src, 0, 255, THRESH_BINARY + THRESH_OTSU)[1]\<close>;
  \<open>warp_rotate\<close> is \<open>cv2.getRotationMatrix2D\<close> followed by \<open>cv2.warpAffine\<close> with cubic
  interpolation and a replicated border.
\<close>

record libs =
  imdecode :: "8 word list \<Rightarrow> bitmap option"
  image_open_rgb :: "8 word list \<Rightarrow> string + bitmap"
  image_to_string :: "bitmap \<Rightarrow> string \<Rightarrow> string + string"
  cvtColor :: "bitmap \<Rightarrow> color_conversion \<Rightarrow> bitmap"
  resize :: "bitmap \<Rightarrow> nat \<times> nat \<Rightarrow> interpolation \<Rightarrow> bitmap"
  medianBlur :: "bitmap \<Rightarrow> nat \<Rightarrow> bitmap"
  adaptiveThreshold :: "bitmap \<Rightarrow> nat \<Rightarrow> nat \<Rightarrow> int \<Rightarrow> bitmap"
  bilateralFilter :: "bitmap \<Rightarrow> nat \<Rightarrow> nat \<Rightarrow> nat \<Rightarrow> bitmap"
  GaussianBlur :: "bitmap \<Rightarrow> nat \<times> nat \<Rightarrow> nat \<Rightarrow> bitmap"
  threshold_otsu :: "bitmap \<Rightarrow> bitmap"
  filter2D :: "bitmap \<Rightarrow> int list list \<Rightarrow> bitmap"
  bitwise_not :: "bitmap \<Rightarrow> bitmap"
  minAreaRect_angle :: "(nat \<times> nat) list \<Rightarrow> real"
  warp_rotate :: "bitmap \<Rightarrow> nat \<times> nat \<Rightarrow> real \<Rightarrow> bitmap"

section \<open>The route \<open>/predict\<close> (\<open>app.py\<close>)\<close>

text \<open>An uploaded file of the request; it counts as present when it has a file name.\<close>

record upload =
  filename :: string
  content :: "8 word list"

definition truthy :: "upload option \<Rightarrow> bool" where
  "truthy f = (case f of None \<Rightarrow> False | Some u \<Rightarrow> filename u \<noteq> [])"

text \<open>\<open>request.files.get("file") or request.files.get("image") or None\<close>\<close>

definition pick_file :: "(string \<Rightarrow> upload option) \<Rightarrow> upload option" where
  "pick_file files =
     (if truthy (files ''file'') then files ''file''
      else if truthy (files ''image'') then files ''image''
      else None)"

text \<open>
  Step 3, loading: the codec of OpenCV first, Pillow when that returns nothing, its
  result turned from RGB to BGR. An exception of Pillow leaves the function.
\<close>

definition load_image :: "libs \<Rightarrow> 8 word list \<Rightarrow> string + bitmap" where
  "load_image L buf =
     (case imdecode L buf of
        Some img_bgr \<Rightarrow> Inr img_bgr
      | None \<Rightarrow>
          (case image_open_rgb L buf of
             Inl e \<Rightarrow> Inl e
           | Inr img_pil \<Rightarrow> Inr (cvtColor L img_pil COLOR_RGB2BGR)))"

text \<open>Step 3, preprocessing: grey, doubled when small, median blur, adaptive threshold.\<close>

definition preprocess :: "libs \<Rightarrow> bitmap \<Rightarrow> bitmap" where
  "preprocess L img_bgr =
     (let gray = cvtColor L img_bgr COLOR_BGR2GRAY;
          h = height gray;
          w = width gray;
          gray = (if max h w < 1000 then resize L gray (w * 2, h * 2) INTER_LINEAR else gray);
          gray = medianBlur L gray 3
      in adaptiveThreshold L gray 255 31 10)"

text \<open>
  The responses of the route: the record with status 200, \<open>no file uploaded\<close> with
  status 400, and an error with its detail with status 500.
\<close>

datatype response = Success prediction | NoFile | Failed string string

text \<open>
  The route. The debug copies of the upload and of the preprocessed image, and the log
  lines, are effects on the file system only and are left out. An exception of
  \<open>int(health_score)\<close> reaches the handler of the route like one of the loader.
\<close>

definition predict :: "libs \<Rightarrow> csv_source \<Rightarrow> (string \<Rightarrow> upload option) \<Rightarrow> response" where
  "predict L csv files =
     (case pick_file files of
        None \<Rightarrow> NoFile
      | Some file \<Rightarrow>
          (case load_image L (content file) of
             Inl e \<Rightarrow> Failed ''server error'' e
           | Inr img_bgr \<Rightarrow>
               (case image_to_string L (preprocess L img_bgr) ''--oem 3 --psm 6'' of
                  Inl e \<Rightarrow> Failed ''tesseract failed'' e
                | Inr ocr \<Rightarrow>
                    (let resp = analyse csv ocr in
                     case health_score resp of
                       Inl e \<Rightarrow> Failed ''server error'' e
                     | Inr score \<Rightarrow> Success resp))))"

section \<open>The variant search (\<open>test_ocr.py\<close>)\<close>

text \<open>The decimal digits of a number, for the name of the deskewed variant.\<close>

fun show_nat :: "nat \<Rightarrow> string" where
  "show_nat n =
     (if n < 10 then [char_of (48 + n)]
      else show_nat (n div 10) @ [char_of (48 + n mod 10)])"

definition show_int :: "int \<Rightarrow> string" where
  "show_int i = (if i < 0 then CHR ''-'' # show_nat (nat (- i)) else show_nat (nat i))"

definition BASE_CONFIG :: string where
  "BASE_CONFIG = ''--oem 1''"

text \<open>
  \<open>resize_for_ocr\<close>: the scale brings the smaller dimension to \<open>2 * target_dpi\<close> at
  least and never shrinks the image. The scale is taken as the exact quotient; the
  rounding of the float quotient and product can move a new size by one pixel, and no
  statement below depends on the sizes.
\<close>

definition resize_for_ocr :: "libs \<Rightarrow> bitmap \<Rightarrow> nat \<Rightarrow> bitmap" where
  "resize_for_ocr L img_cv target_dpi =
     (let h = height img_cv;
          w = width img_cv;
          scale = max 1 (real (target_dpi * 2) / real (min h w));
          new_w = nat (trunc (real w * scale));
          new_h = nat (trunc (real h * scale))
      in resize L img_cv (new_w, new_h) INTER_CUBIC)"

text \<open>
  \<open>np.column_stack(np.where(thresh < 255))\<close>: the (row, column) positions of the pixels
  that are not white, row by row.
\<close>

definition where_below :: "bitmap \<Rightarrow> 8 word \<Rightarrow> (nat \<times> nat) list" where
  "where_below img v =
     map (\<lambda>(i, p). (i div width img, i mod width img))
       (filter (\<lambda>(i, p). p < v) (enumerate 0 (pixels img)))"

text \<open>
  \<open>deskew_image\<close>: with fewer than ten text pixels the image is returned as it is, with
  angle zero.
\<close>

definition deskew_image :: "libs \<Rightarrow> bitmap \<Rightarrow> bitmap \<times> real" where
  "deskew_image L img_gray =
     (let thresh = threshold_otsu L img_gray;
          coords = where_below thresh 255
      in if length coords < 10 then (img_gray, 0)
         else
           (let angle = minAreaRect_angle L coords;
                angle = (if angle < - 45 then angle + 90 else angle);
                h = height img_gray;
                w = width img_gray;
                center = (w div 2, h div 2)
            in (warp_rotate L img_gray center angle, angle)))"

definition sharpen_kernel :: "int list list" where
  "sharpen_kernel = [[0, - 1, 0], [- 1, 5, - 1], [0, - 1, 0]]"

definition sharpen_image_cv :: "libs \<Rightarrow> bitmap \<Rightarrow> bitmap" where
  "sharpen_image_cv L img_cv = filter2D L img_cv sharpen_kernel"

text \<open>
  \<open>preprocess_variants\<close>: the dictionary of the variants, as the list of its items in
  insertion order. An assignment to a key that is there replaces the value in place, as
  \<open>AList.update\<close> does.
\<close>

definition preprocess_variants :: "libs \<Rightarrow> bitmap \<Rightarrow> (string \<times> bitmap) list" where
  "preprocess_variants L img_pil =
     (let base_cv = cvtColor L img_pil COLOR_RGB2BGR;
          resized = resize_for_ocr L base_cv 300;
          gray = cvtColor L resized COLOR_BGR2GRAY;
          variants = [];
          a = adaptiveThreshold L gray 255 31 10;
          variants = AList.update ''adaptive_thresh'' a variants;
          b = bilateralFilter L gray 9 75 75;
          b = adaptiveThreshold L b 255 31 10;
          variants = AList.update ''bilateral+adapt'' b variants;
          c = GaussianBlur L gray (5, 5) 0;
          c = threshold_otsu L c;
          variants = AList.update ''gauss+otsu'' c variants;
          sharp = sharpen_image_cv L resized;
          dgray = cvtColor L sharp COLOR_BGR2GRAY;
          d = threshold_otsu L dgray;
          variants = AList.update ''sharpen+otsu'' d variants;
          e = bitwise_not L a;
          variants = AList.update ''inv_adapt'' e variants;
          (deskewed_gray, ang) = deskew_image L gray;
          f = threshold_otsu L deskewed_gray;
          variants = AList.update (''deskew_otsu_'' @ show_int (trunc ang) @ ''deg'') f variants
      in fold (\<lambda>(k, v) vs.
                 if channels v = 1 then AList.update k (cvtColor L v COLOR_GRAY2BGR) vs else vs)
           variants variants)"

text \<open>\<open>ocr_image_cv\<close>; the default of \<open>extra_config\<close> is \<open>--psm 6\<close>.\<close>

definition ocr_image_cv :: "libs \<Rightarrow> bitmap \<Rightarrow> string \<Rightarrow> string + string" where
  "ocr_image_cv L img_cv extra_config =
     image_to_string L (cvtColor L img_cv COLOR_BGR2RGB)
       (BASE_CONFIG @ '' '' @ extra_config @ '' -l eng'')"

definition score_text :: "string \<Rightarrow> int" where
  "score_text text =
     (if text = [] then 0
      else int (length (filter (\<lambda>w. length w > 1) (str_split text))))"

definition psm_modes :: "string list" where
  "psm_modes = [''--psm 6'', ''--psm 3'', ''--psm 11'']"

text \<open>
  The loop of \<open>main\<close> over the segmentation modes of one variant: an exception of the
  engine gives the empty text, and a strictly higher score replaces the best so far.
\<close>

fun try_modes :: "libs \<Rightarrow> bitmap \<Rightarrow> string list \<Rightarrow> int \<times> string \<Rightarrow> int \<times> string" where
  "try_modes L img_cv [] best = best"
| "try_modes L img_cv (psm # rest) (best_score, best_text_for_variant) =
     (let txt = (case ocr_image_cv L img_cv psm of Inl e \<Rightarrow> [] | Inr t \<Rightarrow> t);
          sc = score_text txt
      in try_modes L img_cv rest
           (if sc > best_score then (sc, txt) else (best_score, best_text_for_variant)))"

text \<open>
  The results of \<open>main\<close>: name, best score and best text of each variant (the path of the
  saved image, which the name determines, is left out), then sorted by score, highest
  first, equal scores in their first order; the best result is the head of that list.
\<close>

definition variant_results :: "libs \<Rightarrow> (string \<times> bitmap) list \<Rightarrow> (string \<times> int \<times> string) list" where
  "variant_results L variants =
     map (\<lambda>(name, img_cv). (name, try_modes L img_cv psm_modes (- 1, []))) variants"

definition results_sorted :: "(string \<times> int \<times> string) list \<Rightarrow> (string \<times> int \<times> string) list" where
  "results_sorted results = sort_key (\<lambda>r. - fst (snd r)) results"

definition main :: "libs \<Rightarrow> bitmap \<Rightarrow> (string \<times> int \<times> string) option" where
  "main L pil =
     (case results_sorted (variant_results L (preprocess_variants L pil)) of
        [] \<Rightarrow> None
      | best # _ \<Rightarrow> Some best)"

section \<open>Conditions and test doubles used in the statements\<close>

text \<open>
  A float that is not below zero: a finite number from zero on, the positive infinity,
  or NaN, which is below nothing.
\<close>

definition nonneg_float :: "pyfloat \<Rightarrow> bool" where
  "nonneg_float x = (case x of Fin y \<Rightarrow> 0 \<le> y | PosInf \<Rightarrow> True | NegInf \<Rightarrow> False | NaN \<Rightarrow> True)"

text \<open>No weight of the table is below zero (cells that are not numbers aside).\<close>

definition nonneg_impacts :: "csv_source \<Rightarrow> bool" where
  "nonneg_impacts csv =
     (case csv of
        Loaded (WithImpact rows) \<Rightarrow>
          list_all (\<lambda>r. case snd r of Num x \<Rightarrow> nonneg_float x | NotNum \<Rightarrow> True) rows
      | _ \<Rightarrow> True)"

text \<open>An engine that reads the same text in every image.\<close>

definition constant_engine :: "string \<Rightarrow> bitmap \<Rightarrow> string \<Rightarrow> string + string" where
  "constant_engine text img config = Inr text"


text \<open>
  Lower-casing fits the slicing of a text: the empty text stays empty, and from every
  position at which the lower-cased text shows a marker, the lower-cased rest of the
  text is the rest of the lower-cased text. For \<open>str.lower\<close> this is so in every text
  without \<open>U+0130\<close>: every other character becomes one code point, and a marker position
  holds a letter, so that the one rule of \<open>str.lower\<close> that reads the context of a
  character, the rule for the final sigma, reads the same context in the rest as in the
  whole text.
\<close>

definition lower_fits :: "(ustring \<Rightarrow> ustring) \<Rightarrow> ustring \<Rightarrow> bool" where
  "lower_fits lw ocr \<longleftrightarrow>
     lw [] = [] \<and>
     (\<forall>i m. m \<in> set u_markers \<and> prefix m (drop i (lw ocr)) \<longrightarrow>
        lw (drop i ocr) = drop i (lw ocr))"

text \<open>
  \<open>str.lower\<close> on the code points below 256 and on \<open>U+0130\<close>, which becomes \<open>i\<close> and the
  combining dot \<open>U+0307\<close>. Other code points are kept: for them this is a test double.
\<close>

definition lower_code_point :: "nat \<Rightarrow> ustring" where
  "lower_code_point c =
     (if (65 \<le> c \<and> c \<le> 90) \<or> (192 \<le> c \<and> c \<le> 222 \<and> c \<noteq> 215) then [c + 32]
      else if c = 304 then [105, 775]
      else [c])"

definition latin_lower :: "ustring \<Rightarrow> ustring" where
  "latin_lower s = concat (map lower_code_point s)"

text \<open>
  What the documentation of the two decoders promises: \<open>cv2.imdecode\<close> with
  \<open>IMREAD_COLOR\<close> returns an image of three channels, \<open>convert("RGB")\<close> of Pillow gives
  three bands, and \<open>cv2.cvtColor\<close> with \<open>COLOR_RGB2BGR\<close> reorders the channels and keeps
  their number. The libraries are not part of the program; statements about the number of
  channels take this as their hypothesis.
\<close>

definition decoder_contract :: "libs \<Rightarrow> bool" where
  "decoder_contract L \<longleftrightarrow>
     (\<forall>buf img. imdecode L buf = Some img \<longrightarrow> channels img = 3) \<and>
     (\<forall>buf img. image_open_rgb L buf = Inr img \<longrightarrow> channels img = 3) \<and>
     (\<forall>img. channels (cvtColor L img COLOR_RGB2BGR) = channels img)"

text \<open>
  The score of the default path run alone: the variant \<open>adaptive_thresh\<close> of
  \<open>preprocess_variants\<close> given to \<open>ocr_image_cv\<close> with its default mode, and
  \<open>score_text\<close> of the text; \<open>None\<close> when the engine raises.
\<close>

definition single_path_score :: "libs \<Rightarrow> bitmap \<Rightarrow> int option" where
  "single_path_score L pil =
     (case map_of (preprocess_variants L pil) ''adaptive_thresh'' of
        None \<Rightarrow> None
      | Some img_cv \<Rightarrow>
          (case ocr_image_cv L img_cv ''--psm 6'' of
             Inl e \<Rightarrow> None
           | Inr text \<Rightarrow> Some (score_text text)))"

text \<open>An engine whose exceptions are replaced by the empty text.\<close>

definition recovered :: "(bitmap \<Rightarrow> string \<Rightarrow> string + string) \<Rightarrow> bitmap \<Rightarrow> string \<Rightarrow> string + string" where
  "recovered engine img config =
     (case engine img config of Inl e \<Rightarrow> Inr [] | Inr text \<Rightarrow> Inr text)"

text \<open>
  Test doubles of the libraries, for concrete runs: a codec that reads files beginning
  with the byte 1, a fallback that reads files beginning with the byte 2, filters that
  keep the pixels, and the recognition engine given as argument.
\<close>

definition one_pixel :: "8 word \<Rightarrow> bitmap" where
  "one_pixel v = \<lparr> height = 1, width = 1, channels = 3, pixels = [v, v, v] \<rparr>"

definition stub_libs :: "(bitmap \<Rightarrow> string \<Rightarrow> string + string) \<Rightarrow> libs" where
  "stub_libs engine =
     \<lparr> imdecode = (\<lambda>buf. case buf of
                       [] \<Rightarrow> None
                     | b # _ \<Rightarrow> if b = 1 then Some (one_pixel 7) else None),
       image_open_rgb = (\<lambda>buf. case buf of
                       [] \<Rightarrow> Inl ''cannot identify image file''
                     | b # _ \<Rightarrow> if b = 2 then Inr (one_pixel 9)
                                else Inl ''cannot identify image file''),
       image_to_string = engine,
       cvtColor = (\<lambda>img code. case code of
                       COLOR_BGR2GRAY \<Rightarrow> img\<lparr>channels := 1\<rparr>
                     | COLOR_GRAY2BGR \<Rightarrow> img\<lparr>channels := 3\<rparr>
                     | _ \<Rightarrow> img\<lparr>pixels := rev (pixels img)\<rparr>),
       resize = (\<lambda>img (w, h) interp. img\<lparr>height := h, width := w\<rparr>),
       medianBlur = (\<lambda>img ksize. img),
       adaptiveThreshold = (\<lambda>img maxValue blockSize c. img),
       bilateralFilter = (\<lambda>img d sigmaColor sigmaSpace. img),
       GaussianBlur = (\<lambda>img ksize sigma. img),
       threshold_otsu = (\<lambda>img. img),
       filter2D = (\<lambda>img kernel. img),
       bitwise_not = (\<lambda>img. img\<lparr>pixels := map (\<lambda>p. 255 - p) (pixels img)\<rparr>),
       minAreaRect_angle = (\<lambda>coords. 0),
       warp_rotate = (\<lambda>img center angle. img) \<rparr>"

text \<open>
  An engine that always raises, and one that reads a little in the default mode, more in
  the automatic mode on the inverted image, and raises otherwise.
\<close>

definition failing_engine :: "bitmap \<Rightarrow> string \<Rightarrow> string + string" where
  "failing_engine img config = Inl ''engine failure''"

definition sample_engine :: "bitmap \<Rightarrow> string \<Rightarrow> string + string" where
  "sample_engine img config =
     (if config = ''--oem 1 --psm 6 -l eng'' then Inr ''oat sugar''
      else if config = ''--oem 1 --psm 3 -l eng'' \<and> pixels img = [248, 248, 248]
      then Inr ''ingredients: oat flakes, sugar''
      else Inl ''engine failure'')"

definition upload_field :: "string \<Rightarrow> 8 word list \<Rightarrow> string \<Rightarrow> upload option" where
  "upload_field name buf key =
     (if key = name then Some \<lparr> filename = ''label.jpg'', content = buf \<rparr> else None)"

section \<open>The allergen list\<close>

lemma set_table_allergens:
  "set (table_allergens names toks) =
     (\<Union>t \<in> set toks. {n \<in> set names. row_matches (lower t) n})"
  by (induction toks) auto

lemma set_fallback_allergens:
  "set (fallback_allergens toks) =
     (\<Union>t \<in> set toks. {a \<in> set sample_allergens. contains a (lower t)})"
  by (induction toks) auto

lemma fst_table_stage_set:
  assumes "set toks = set toks'"
  shows "set (fst (table_stage csv toks)) = set (fst (table_stage csv toks'))"
proof (cases csv)
  case (Loaded df)
  then show ?thesis using assms
    by (cases df) (simp_all add: set_table_allergens Let_def split: option.splits)
qed simp_all

lemma allergens_found_set:
  assumes "set toks = set toks'"
  shows "set (allergens_found csv toks) = set (allergens_found csv toks')"
proof -
  have a: "set (fst (table_stage csv toks)) = set (fst (table_stage csv toks'))"
    using assms by (rule fst_table_stage_set)
  then have b: "fst (table_stage csv toks) = [] \<longleftrightarrow> fst (table_stage csv toks') = []"
    by (metis set_empty)
  have c: "set (fallback_allergens toks) = set (fallback_allergens toks')"
    using assms by (simp add: set_fallback_allergens)
  show ?thesis using a b c by (simp add: allergens_found_def Let_def)
qed

lemma sort_remdups_cong:
  fixes xs ys :: "string list"
  assumes "set xs = set ys"
  shows "sort (remdups xs) = sort (remdups ys)"
proof -
  have "sort (remdups xs) = sorted_list_of_set (set xs)"
    by (simp add: sorted_list_of_set_sort_remdups)
  also have "\<dots> = sorted_list_of_set (set ys)" using assms by simp
  also have "\<dots> = sort (remdups ys)"
    by (simp add: sorted_list_of_set_sort_remdups)
  finally show ?thesis .
qed

lemma allergens_analyse:
  "allergens (analyse csv ocr) = fst (scorer csv (tokenize (extract_ingredients ocr)))"
  by (simp add: analyse_def Let_def split: prod.splits)

lemma health_score_analyse:
  "health_score (analyse csv ocr) = snd (scorer csv (tokenize (extract_ingredients ocr)))"
  by (simp add: analyse_def Let_def split: prod.splits)

text \<open>
  Claim C8. For every token list the allergen list of the response is sorted in
  lexicographic order and has no duplicates; it is the same for every permutation of the
  token list and for every token list with the same tokens repeated, since it depends on
  the set of tokens only.
\<close>

theorem allergens_sorted_dedup_invariant:
  "sorted (allergens (analyse csv ocr)) \<and> distinct (allergens (analyse csv ocr)) \<and>
   allergens (analyse csv ocr) = fst (scorer csv (tokenize (extract_ingredients ocr))) \<and>
   (mset toks = mset toks' \<longrightarrow> fst (scorer csv toks) = fst (scorer csv toks')) \<and>
   (set toks = set toks' \<longrightarrow> fst (scorer csv toks) = fst (scorer csv toks'))"
proof -
  have b: "sorted (fst (scorer csv ts)) \<and> distinct (fst (scorer csv ts))" for ts
    by (simp add: scorer_def)
  have c: "fst (scorer csv toks) = fst (scorer csv toks')" if "set toks = set toks'"
    unfolding scorer_def fst_conv
    by (rule sort_remdups_cong) (rule allergens_found_set [OF that])
  have d: "fst (scorer csv toks) = fst (scorer csv toks')" if "mset toks = mset toks'"
    using c mset_eq_setD [OF that] by simp
  show ?thesis using b c d by (simp add: allergens_analyse)
qed

theorem allergens_sorted_dedup_invariant_witness:
  "mset [''egg'', ''milk powder'', ''egg''] = mset [''milk powder'', ''egg'', ''egg''] \<and>
   set [''egg'', ''milk powder'', ''egg''] = set [''milk powder'', ''egg''] \<and>
   fst (scorer NotFound [''egg'', ''milk powder'', ''egg'']) =
     fst (scorer NotFound [''milk powder'', ''egg'', ''egg'']) \<and>
   fst (scorer NotFound [''egg'', ''milk powder'', ''egg'']) =
     fst (scorer NotFound [''milk powder'', ''egg'']) \<and>
   fst (scorer NotFound [''egg'', ''milk powder'', ''egg'']) = [''egg'', ''milk'']"
proof -
  have m: "mset [''egg'', ''milk powder'', ''egg''] = mset [''milk powder'', ''egg'', ''egg'']"
    by simp
  have s: "set [''egg'', ''milk powder'', ''egg''] = set [''milk powder'', ''egg'']"
    by (simp add: insert_commute)
  have v: "fst (scorer NotFound [''egg'', ''milk powder'', ''egg'']) = [''egg'', ''milk'']"
    by code_simp
  have p: "fst (scorer NotFound [''egg'', ''milk powder'', ''egg'']) =
     fst (scorer NotFound [''milk powder'', ''egg'', ''egg''])"
    using allergens_sorted_dedup_invariant
      [of NotFound "[]" "[''egg'', ''milk powder'', ''egg'']" "[''milk powder'', ''egg'', ''egg'']"] m
    by blast
  have d: "fst (scorer NotFound [''egg'', ''milk powder'', ''egg'']) =
     fst (scorer NotFound [''milk powder'', ''egg''])"
    using allergens_sorted_dedup_invariant
      [of NotFound "[]" "[''egg'', ''milk powder'', ''egg'']" "[''milk powder'', ''egg'']"] s
    by blast
  show ?thesis using m s v p d by blast
qed

section \<open>The health score\<close>

lemma token_penalty_ge: "p \<le> token_penalty t p"
proof -
  have "p \<le> fold (\<lambda>k p. if contains k (lower t) then p + 5 else p) ks q" if "p \<le> q" for ks q
    using that by (induction ks arbitrary: q) auto
  then show ?thesis by (simp add: token_penalty_def)
qed

lemma fold_token_penalty_ge: "p \<le> fold token_penalty toks p"
proof (induction toks arbitrary: p)
  case Nil
  show ?case by simp
next
  case (Cons t toks)
  have "p \<le> token_penalty t p" by (rule token_penalty_ge)
  also have "\<dots> \<le> fold token_penalty toks (token_penalty t p)" by (rule Cons.IH)
  finally show ?case by simp
qed

lemma fallback_penalty_nonneg: "0 \<le> fallback_penalty toks"
  unfolding fallback_penalty_def by (rule fold_token_penalty_ge)

lemma trunc_nonneg: "0 \<le> x \<Longrightarrow> 0 \<le> trunc x"
  by (simp add: trunc_def)

lemma trunc_le_100: "x \<le> 100 \<Longrightarrow> trunc x \<le> 100"
  unfolding trunc_def by (auto simp: floor_le_iff ceiling_le_iff)

subsection \<open>Rounding keeps the sign and the bound 100\<close>

declare binade.simps [simp del]

lemma pow2_pos: "0 < pow2 e"
  by (simp add: pow2_def)

lemma pow2_powi: "pow2 e = 2 powi e"
  by (simp add: pow2_def power_int_def field_simps)

lemma pow2_succ: "pow2 (e + 1) = 2 * pow2 e"
  by (simp add: pow2_powi power_int_add)

lemma pow2_pred: "pow2 (e - 1) = pow2 e / 2"
  by (simp add: pow2_powi power_int_diff)

lemma pow2_mono: "e \<le> e' \<Longrightarrow> pow2 e \<le> pow2 e'"
  by (simp add: pow2_powi power_int_increasing)

lemma binade_le: "0 < a \<Longrightarrow> pow2 (binade a) \<le> a"
proof (induction a rule: binade.induct)
  case (1 a)
  show ?case
  proof (cases "2 \<le> a")
    case True
    then have "pow2 (binade (a / 2)) \<le> a / 2" using 1 by simp
    then show ?thesis using True by (subst binade.simps) (simp add: pow2_succ)
  next
    case False
    show ?thesis
    proof (cases "a < 1")
      case True
      then have "pow2 (binade (a * 2)) \<le> a * 2" using 1 False by simp
      then show ?thesis using True False 1(3) by (subst binade.simps) (simp add: pow2_pred)
    next
      case b: False
      then show ?thesis using False by (subst binade.simps) (simp add: pow2_def)
    qed
  qed
qed

lemma binade_gt: "0 < a \<Longrightarrow> a < pow2 (binade a + 1)"
proof (induction a rule: binade.induct)
  case (1 a)
  show ?case
  proof (cases "2 \<le> a")
    case True
    then have "a / 2 < pow2 (binade (a / 2) + 1)" using 1 by simp
    moreover have "binade a = binade (a / 2) + 1"
      using True by (subst binade.simps) simp
    moreover have "pow2 (binade (a / 2) + 1 + 1) = 2 * pow2 (binade (a / 2) + 1)"
      by (rule pow2_succ)
    ultimately show ?thesis by simp
  next
    case False
    show ?thesis
    proof (cases "a < 1")
      case True
      then have "a * 2 < pow2 (binade (a * 2) + 1)" using 1 False by simp
      moreover have "binade a = binade (a * 2) - 1"
        using True False 1(3) by (subst binade.simps) simp
      moreover have "pow2 (binade (a * 2) - 1 + 1 + 1) = 2 * pow2 (binade (a * 2) - 1 + 1)"
        by (rule pow2_succ)
      ultimately show ?thesis by simp
    next
      case b: False
      then have "binade a = 0" using False by (subst binade.simps) simp
      then show ?thesis using False by (simp add: pow2_def)
    qed
  qed
qed

lemma round_even_nonneg: "0 \<le> x \<Longrightarrow> 0 \<le> round_even x"
  by (simp add: round_even_def Let_def)

lemma round_even_le: "x \<le> of_int k \<Longrightarrow> round_even x \<le> k"
proof -
  assume a: "x \<le> of_int k"
  then have f: "\<lfloor>x\<rfloor> \<le> k" by (simp add: floor_le_iff)
  show ?thesis
  proof (cases "\<lfloor>x\<rfloor> = k")
    case True
    then have "x = of_int k" using a by linarith
    then show ?thesis by (simp add: round_even_def)
  next
    case False
    then have "\<lfloor>x\<rfloor> + 1 \<le> k" using f by simp
    then show ?thesis by (simp add: round_even_def Let_def)
  qed
qed

lemma binade_zero: "binade 0 = 0"
  by (subst binade.simps) simp

lemma binade_less:
  assumes "0 < a" and "a < pow2 k"
  shows "binade a < k"
proof (rule ccontr)
  assume "\<not> binade a < k"
  then have "pow2 k \<le> pow2 (binade a)" by (simp add: pow2_mono)
  also have "\<dots> \<le> a" using assms(1) by (rule binade_le)
  finally show False using assms(2) by simp
qed

lemma round64_nonneg:
  assumes "0 \<le> x"
  shows "round64 x = PosInf \<or> (\<exists>y. round64 x = Fin y \<and> 0 \<le> y)"
proof -
  define e where "e = max (binade \<bar>x\<bar>) (- 1022) - 52"
  define y where "y = of_int (round_even (x / pow2 e)) * pow2 e"
  have r: "round64 x = (if 1024 \<le> binade \<bar>y\<bar> then (if 0 < x then PosInf else NegInf) else Fin y)"
    by (simp add: round64_def Let_def e_def y_def)
  have "0 \<le> x / pow2 e" using assms pow2_pos [of e] by simp
  then have "0 \<le> round_even (x / pow2 e)" by (rule round_even_nonneg)
  then have y0: "0 \<le> y" using pow2_pos [of e] by (simp add: y_def)
  show ?thesis
  proof (cases "1024 \<le> binade \<bar>y\<bar>")
    case True
    then have "y \<noteq> 0" by (auto simp: binade_zero)
    then have "x \<noteq> 0" by (auto simp: y_def round_even_def)
    then show ?thesis using r True assms by simp
  next
    case False
    then show ?thesis using r y0 by simp
  qed
qed

lemma round64_le_100:
  assumes "x \<le> 100"
  shows "round64 x = NegInf \<or> (\<exists>y. round64 x = Fin y \<and> y \<le> 100)"
proof -
  define e where "e = max (binade \<bar>x\<bar>) (- 1022) - 52"
  define y where "y = of_int (round_even (x / pow2 e)) * pow2 e"
  have r: "round64 x = (if 1024 \<le> binade \<bar>y\<bar> then (if 0 < x then PosInf else NegInf) else Fin y)"
    by (simp add: round64_def Let_def e_def y_def)
  show ?thesis
  proof (cases "0 < x")
    case False
    then have "x / pow2 e \<le> of_int 0" using pow2_pos [of e] by (simp add: field_simps)
    then have "round_even (x / pow2 e) \<le> 0" by (rule round_even_le)
    then have "y \<le> 0" using pow2_pos [of e] by (simp add: y_def mult_le_0_iff)
    then show ?thesis using r False by simp
  next
    case True
    have "x < pow2 7" using assms by (simp add: pow2_def)
    then have "binade x < 7" using True by (intro binade_less)
    then have e: "e \<le> - 46" using True by (simp add: e_def)
    then have p: "pow2 e = 1 / 2 ^ nat (- e)" by (simp add: pow2_def)
    have "(100 :: real) / pow2 e = of_int (100 * 2 ^ nat (- e))" by (simp add: p)
    moreover have "x / pow2 e \<le> 100 / pow2 e"
      using assms pow2_pos [of e] by (simp add: divide_right_mono)
    ultimately have "x / pow2 e \<le> of_int (100 * 2 ^ nat (- e))" by simp
    then have "round_even (x / pow2 e) \<le> 100 * 2 ^ nat (- e)" by (rule round_even_le)
    then have "(of_int (round_even (x / pow2 e)) :: real) \<le> of_int (100 * 2 ^ nat (- e))"
      by (simp only: of_int_le_iff)
    then have "y \<le> of_int (100 * 2 ^ nat (- e)) * pow2 e"
      unfolding y_def using pow2_pos [of e] by (simp add: mult_right_mono)
    also have "\<dots> = 100" by (simp add: p)
    finally have y100: "y \<le> 100" .
    have "0 \<le> x / pow2 e" using True pow2_pos [of e] by simp
    then have "0 \<le> round_even (x / pow2 e)" by (rule round_even_nonneg)
    then have y0: "0 \<le> y" using pow2_pos [of e] by (simp add: y_def)
    have "binade \<bar>y\<bar> < 1024"
    proof (cases "y = 0")
      case True
      then show ?thesis by (simp add: binade_zero)
    next
      case False
      have "\<bar>y\<bar> < pow2 1024" using y0 y100 by (simp add: pow2_def)
      moreover have "0 < \<bar>y\<bar>" using False by simp
      ultimately show ?thesis by (intro binade_less)
    qed
    then show ?thesis using r y100 by simp
  qed
qed

lemma fadd_nonneg:
  assumes "nonneg_float a" and "nonneg_float b"
  shows "nonneg_float (fadd a b)"
proof -
  have "nonneg_float (round64 (x + y))" if "0 \<le> x" "0 \<le> y" for x y
    using round64_nonneg [of "x + y"] that by (auto simp: nonneg_float_def)
  then show ?thesis using assms by (cases a; cases b) (simp_all add: nonneg_float_def)
qed

lemma foldl_fadd_nonneg:
  "nonneg_float acc \<Longrightarrow> list_all nonneg_float xs \<Longrightarrow> nonneg_float (foldl fadd acc xs)"
  by (induction xs arbitrary: acc) (simp_all add: fadd_nonneg)

lemma float_sum_nonneg: "list_all nonneg_float xs \<Longrightarrow> nonneg_float (float_sum xs)"
  unfolding float_sum_def by (rule foldl_fadd_nonneg) (simp_all add: nonneg_float_def)

subsection \<open>The score of the table stage\<close>

lemma py_int_impact_score:
  "(\<exists>n. py_int (impact_score impacts) = Inr n \<and> 0 \<le> n) \<or>
   (py_int (impact_score impacts) = Inl ''cannot convert float infinity to integer'' \<and>
    impact_score impacts = PyFloat PosInf)"
proof (cases "fsub (Fin 100) (float_sum impacts)")
  case (Fin y)
  then show ?thesis by (simp add: impact_score_def Let_def trunc_nonneg)
qed (simp_all add: impact_score_def Let_def)

lemma py_int_impact_score_le:
  assumes "nonneg_float (float_sum impacts)"
  shows "\<exists>n. py_int (impact_score impacts) = Inr n \<and> 0 \<le> n \<and> n \<le> 100"
proof (cases "float_sum impacts")
  case s: (Fin y)
  then have "100 + - y \<le> 100" using assms by (simp add: nonneg_float_def)
  then have "round64 (100 + - y) = NegInf \<or> (\<exists>z. round64 (100 + - y) = Fin z \<and> z \<le> 100)"
    by (rule round64_le_100)
  then show ?thesis
  proof
    assume "round64 (100 + - y) = NegInf"
    then show ?thesis by (simp add: impact_score_def Let_def fsub_def s)
  next
    assume "\<exists>z. round64 (100 + - y) = Fin z \<and> z \<le> 100"
    then obtain z where z: "round64 (100 + - y) = Fin z" "z \<le> 100" by blast
    then show ?thesis
      by (simp add: impact_score_def Let_def fsub_def s trunc_nonneg trunc_le_100)
  qed
next
  case PosInf
  then show ?thesis by (simp add: impact_score_def Let_def fsub_def)
next
  case NegInf
  then show ?thesis using assms by (simp add: nonneg_float_def)
next
  case NaN
  then show ?thesis by (simp add: impact_score_def Let_def fsub_def)
qed

lemma binade_eq:
  assumes "pow2 k \<le> a" and "a < pow2 (k + 1)"
  shows "binade a = k"
proof -
  have a0: "0 < a" using assms(1) pow2_pos [of k] by linarith
  have "binade a < k + 1" using a0 assms(2) by (rule binade_less)
  moreover have "k < binade a + 1"
  proof (rule ccontr)
    assume "\<not> k < binade a + 1"
    then have "pow2 (binade a + 1) \<le> pow2 k" by (simp add: pow2_mono)
    then show False using binade_gt [OF a0] assms(1) by linarith
  qed
  ultimately show ?thesis by simp
qed

lemma binade_pow2: "binade (pow2 k) = k"
  by (rule binade_eq) (simp_all add: pow2_succ pow2_pos)

lemma round_even_of_int: "round_even (of_int n) = n"
  by (simp add: round_even_def)

lemma round64_neg_pow2:
  assumes "- 1022 \<le> k"
  shows "round64 (- pow2 k) = (if 1024 \<le> k then NegInf else Fin (- pow2 k))"
proof -
  define x where "x = - pow2 k"
  define e where "e = max (binade \<bar>x\<bar>) (- 1022) - 52"
  define y where "y = of_int (round_even (x / pow2 e)) * pow2 e"
  have r: "round64 x = (if 1024 \<le> binade \<bar>y\<bar> then (if 0 < x then PosInf else NegInf) else Fin y)"
    by (simp add: round64_def Let_def e_def y_def)
  have x0: "x < 0" using pow2_pos [of k] by (simp add: x_def)
  have "\<bar>x\<bar> = pow2 k" using pow2_pos [of k] by (simp add: x_def)
  then have "binade \<bar>x\<bar> = k" by (simp add: binade_pow2)
  then have e: "e = k - 52" using assms by (simp add: e_def)
  have q: "pow2 k = of_int (2 ^ 52) * pow2 e"
    unfolding e by (simp add: pow2_powi power_int_diff)
  have "x / pow2 e = of_int (- (2 ^ 52))"
    using pow2_pos [of e] by (simp add: x_def q)
  then have "round_even (x / pow2 e) = - (2 ^ 52)"
    by (simp only: round_even_of_int)
  then have y: "y = x" by (simp add: y_def x_def q)
  have "\<bar>y\<bar> = pow2 k" using pow2_pos [of k] by (simp add: y x_def)
  then have "binade \<bar>y\<bar> = k" by (simp add: binade_pow2)
  then have "round64 x = (if 1024 \<le> k then NegInf else Fin x)"
    using r x0 y by simp
  then show ?thesis by (simp add: x_def)
qed

text \<open>
  Two finite weights can sum to an infinity: with \<open>-2 ^ 1023\<close> twice the sum overflows
  to the negative infinity, the score is the positive infinity, and \<open>int\<close> raises.
\<close>

lemma finite_weights_sum_to_infinity:
  "float_sum [Fin (- pow2 1023), Fin (- pow2 1023)] = NegInf \<and>
   impact_score [Fin (- pow2 1023), Fin (- pow2 1023)] = PyFloat PosInf \<and>
   py_int (impact_score [Fin (- pow2 1023), Fin (- pow2 1023)]) =
     Inl ''cannot convert float infinity to integer''"
proof -
  have a: "round64 (- pow2 1023) = Fin (- pow2 1023)"
    using round64_neg_pow2 [of 1023] by simp
  have d: "- pow2 1023 + - pow2 1023 = - pow2 1024"
    using pow2_succ [of 1023] by simp
  have "round64 (- pow2 1024) = NegInf"
    using round64_neg_pow2 [of 1024] by simp
  then have b: "round64 (- pow2 1023 + - pow2 1023) = NegInf"
    by (simp only: d)
  have "float_sum [Fin (- pow2 1023), Fin (- pow2 1023)] =
      fadd (fadd (Fin 0) (Fin (- pow2 1023))) (Fin (- pow2 1023))"
    by (simp add: float_sum_def)
  also have "\<dots> = fadd (Fin (- pow2 1023)) (Fin (- pow2 1023))"
    using a by simp
  also have "\<dots> = NegInf" using b by (simp only: fadd.simps)
  finally have s: "float_sum [Fin (- pow2 1023), Fin (- pow2 1023)] = NegInf" .
  then show ?thesis by (simp add: impact_score_def Let_def fsub_def)
qed

lemma to_floats_nonneg:
  "to_floats cs = Some xs \<Longrightarrow>
     list_all (\<lambda>c. case c of Num x \<Rightarrow> nonneg_float x | NotNum \<Rightarrow> True) cs \<Longrightarrow>
     list_all nonneg_float xs"
  by (induction cs arbitrary: xs rule: to_floats.induct) auto

lemma table_impacts_nonneg:
  assumes "list_all (\<lambda>r. case snd r of Num x \<Rightarrow> nonneg_float x | NotNum \<Rightarrow> True) rows"
    and "table_impacts rows toks = Some xs"
  shows "list_all nonneg_float xs"
  using assms(2)
proof (induction toks arbitrary: xs)
  case Nil
  then show ?case by simp
next
  case (Cons t toks)
  let ?sel = "map snd (filter (\<lambda>r. row_matches (lower t) (fst r)) rows)"
  from Cons.prems obtain ys zs where
    ys: "to_floats ?sel = Some ys" and zs: "table_impacts rows toks = Some zs" and xs: "xs = ys @ zs"
    by (auto split: option.splits)
  have "list_all (\<lambda>c. case c of Num x \<Rightarrow> nonneg_float x | NotNum \<Rightarrow> True) ?sel"
    using assms(1) by (auto simp: list_all_iff)
  then have "list_all nonneg_float ys" by (rule to_floats_nonneg [OF ys])
  moreover have "list_all nonneg_float zs" by (rule Cons.IH [OF zs])
  ultimately show ?case by (simp add: xs)
qed

lemma table_stage_score:
  assumes "snd (table_stage csv toks) = Some s"
  shows "\<exists>rows impacts. csv = Loaded (WithImpact rows) \<and>
           table_impacts rows toks = Some impacts \<and> s = impact_score impacts"
  using assms
  by (cases "(csv, toks)" rule: table_stage.cases)
    (auto simp: Let_def split: option.splits if_splits)

lemma py_int_health:
  "(\<exists>n. py_int (health csv toks) = Inr n \<and> 0 \<le> n) \<or>
   (py_int (health csv toks) = Inl ''cannot convert float infinity to integer'' \<and>
    health csv toks = PyFloat PosInf)"
proof (cases "snd (table_stage csv toks)")
  case None
  then show ?thesis by (simp add: health_def)
next
  case (Some s)
  then obtain impacts where "s = impact_score impacts"
    using table_stage_score by blast
  then show ?thesis using Some py_int_impact_score [of impacts] by (simp add: health_def)
qed

lemma py_int_health_le:
  assumes "nonneg_impacts csv"
  shows "\<exists>n. py_int (health csv toks) = Inr n \<and> 0 \<le> n \<and> n \<le> 100"
proof (cases "snd (table_stage csv toks)")
  case None
  have "0 \<le> fallback_penalty toks" by (rule fallback_penalty_nonneg)
  then show ?thesis using None by (simp add: health_def)
next
  case (Some s)
  then obtain rows impacts where csv: "csv = Loaded (WithImpact rows)"
    and imp: "table_impacts rows toks = Some impacts" and s: "s = impact_score impacts"
    using table_stage_score by blast
  have "list_all (\<lambda>r. case snd r of Num x \<Rightarrow> nonneg_float x | NotNum \<Rightarrow> True) rows"
    using assms csv by (simp add: nonneg_impacts_def)
  then have "list_all nonneg_float impacts" using imp by (rule table_impacts_nonneg)
  then have "nonneg_float (float_sum impacts)" by (rule float_sum_nonneg)
  then have "\<exists>n. py_int (impact_score impacts) = Inr n \<and> 0 \<le> n \<and> n \<le> 100"
    by (rule py_int_impact_score_le)
  then show ?thesis using Some s by (simp add: health_def)
qed

lemma predict_after_ocr:
  assumes "pick_file files = Some file"
    and "load_image L (content file) = Inr img_bgr"
    and "image_to_string L (preprocess L img_bgr) ''--oem 3 --psm 6'' = Inr ocr"
  shows "predict L csv files =
     (case health_score (analyse csv ocr) of
        Inl e \<Rightarrow> Failed ''server error'' e
      | Inr score \<Rightarrow> Success (analyse csv ocr))"
  using assms by (simp add: predict_def Let_def)

text \<open>
  Claim C2, as amended. For every token list, the empty one included, and every
  reference table (absent, unreadable or loaded, with or without weights, which are
  floats: finite, infinite or NaN, added with rounding), the health score of a response
  record is an integer that is not negative. No record is returned in one case only: the
  score of the table stage is the float infinity, \<open>int\<close> raises, and the route answers
  \<open>server error\<close> with status 500. Whenever no weight of the table is below zero, a record
  is returned and its score is at most 100. The score is clamped from below only.
\<close>

theorem health_score_range:
  "(case health_score (analyse csv ocr) of
      Inr n \<Rightarrow> 0 \<le> n
    | Inl e \<Rightarrow>
        e = ''cannot convert float infinity to integer'' \<and>
        health csv (tokenize (extract_ingredients ocr)) = PyFloat PosInf) \<and>
   (nonneg_impacts csv \<longrightarrow>
      (\<exists>n. health_score (analyse csv ocr) = Inr n \<and> 0 \<le> n \<and> n \<le> 100)) \<and>
   (case snd (scorer csv toks) of
      Inr n \<Rightarrow> 0 \<le> n
    | Inl e \<Rightarrow>
        e = ''cannot convert float infinity to integer'' \<and> health csv toks = PyFloat PosInf) \<and>
   (nonneg_impacts csv \<longrightarrow> (\<exists>n. snd (scorer csv toks) = Inr n \<and> 0 \<le> n \<and> n \<le> 100)) \<and>
   (pick_file files = Some file \<and> load_image L (content file) = Inr img_bgr \<and>
      image_to_string L (preprocess L img_bgr) ''--oem 3 --psm 6'' = Inr ocr \<longrightarrow>
        predict L csv files =
          (case health_score (analyse csv ocr) of
             Inl e \<Rightarrow> Failed ''server error'' e
           | Inr score \<Rightarrow> Success (analyse csv ocr)))"
proof -
  have a: "case py_int (health csv ts) of
      Inr n \<Rightarrow> 0 \<le> n
    | Inl e \<Rightarrow>
        e = ''cannot convert float infinity to integer'' \<and> health csv ts = PyFloat PosInf" for ts
    using py_int_health [of csv ts] by (auto split: sum.splits)
  have b: "\<exists>n. py_int (health csv ts) = Inr n \<and> 0 \<le> n \<and> n \<le> 100"
    if "nonneg_impacts csv" for ts
    using that by (rule py_int_health_le)
  have h: "health_score (analyse csv ocr) = py_int (health csv (tokenize (extract_ingredients ocr)))"
    by (simp add: health_score_analyse scorer_def)
  have s: "snd (scorer csv toks) = py_int (health csv toks)"
    by (simp add: scorer_def)
  have c1: "case health_score (analyse csv ocr) of
      Inr n \<Rightarrow> 0 \<le> n
    | Inl e \<Rightarrow>
        e = ''cannot convert float infinity to integer'' \<and>
        health csv (tokenize (extract_ingredients ocr)) = PyFloat PosInf"
    unfolding h by (rule a)
  have c2: "nonneg_impacts csv \<longrightarrow>
      (\<exists>n. health_score (analyse csv ocr) = Inr n \<and> 0 \<le> n \<and> n \<le> 100)"
    unfolding h using b by blast
  have c3: "case snd (scorer csv toks) of
      Inr n \<Rightarrow> 0 \<le> n
    | Inl e \<Rightarrow>
        e = ''cannot convert float infinity to integer'' \<and> health csv toks = PyFloat PosInf"
    unfolding s by (rule a)
  have c4: "nonneg_impacts csv \<longrightarrow> (\<exists>n. snd (scorer csv toks) = Inr n \<and> 0 \<le> n \<and> n \<le> 100)"
    unfolding s using b by blast
  have c5: "pick_file files = Some file \<and> load_image L (content file) = Inr img_bgr \<and>
      image_to_string L (preprocess L img_bgr) ''--oem 3 --psm 6'' = Inr ocr \<longrightarrow>
        predict L csv files =
          (case health_score (analyse csv ocr) of
             Inl e \<Rightarrow> Failed ''server error'' e
           | Inr score \<Rightarrow> Success (analyse csv ocr))"
    using predict_after_ocr by blast
  show ?thesis by (intro conjI) (rule c1, rule c2, rule c3, rule c4, rule c5)
qed

theorem health_score_range_witness:
  "nonneg_impacts (Loaded (WithImpact
      [(''Cane sugar'', Num (round64 (301 / 10))), (''Sea salt'', Num (round64 (108 / 10))),
       (''Palm oil'', Num (round64 (11 / 10)))])) \<and>
   snd (scorer (Loaded (WithImpact
      [(''Cane sugar'', Num (round64 (301 / 10))), (''Sea salt'', Num (round64 (108 / 10))),
       (''Palm oil'', Num (round64 (11 / 10)))])) [''sugar'', ''salt'', ''oil'']) = Inr 57 \<and>
   (0::int) \<le> 57 \<and> (57::int) \<le> 100 \<and>
   health (Loaded (WithImpact [(''Sugar'', Num NegInf)])) [''sugar'', ''salt''] = PyFloat PosInf \<and>
   predict (stub_libs (constant_engine ''sugar, salt''))
      (Loaded (WithImpact [(''Sugar'', Num NegInf)])) (upload_field ''file'' [1, 0]) =
     Failed ''server error'' ''cannot convert float infinity to integer''"
proof -
  let ?csv = "Loaded (WithImpact
      [(''Cane sugar'', Num (round64 (301 / 10))), (''Sea salt'', Num (round64 (108 / 10))),
       (''Palm oil'', Num (round64 (11 / 10)))])"
  let ?inf = "Loaded (WithImpact [(''Sugar'', Num NegInf)])"
  let ?L = "stub_libs (constant_engine ''sugar, salt'')"
  let ?file = "\<lparr> filename = ''label.jpg'', content = [1, 0] \<rparr>"
  have n: "nonneg_impacts ?csv" by code_simp
  have v: "snd (scorer ?csv [''sugar'', ''salt'', ''oil'']) = Inr 57" by code_simp
  have w: "snd (scorer ?inf [''sugar'', ''salt'']) =
      Inl ''cannot convert float infinity to integer''" by code_simp
  have t: "tokenize (extract_ingredients ''sugar, salt'') = [''sugar'', ''salt'']" by code_simp
  have f: "pick_file (upload_field ''file'' [1, 0]) = Some ?file" by code_simp
  have l: "load_image ?L (content ?file) = Inr (one_pixel 7)" by code_simp
  have e: "image_to_string ?L (preprocess ?L (one_pixel 7)) ''--oem 3 --psm 6'' =
      Inr ''sugar, salt''" by code_simp
  have hs: "health_score (analyse ?inf ''sugar, salt'') = snd (scorer ?inf [''sugar'', ''salt''])"
    by (simp add: health_score_analyse t)
  have a: "(0::int) \<le> 57 \<and> (57::int) \<le> 100"
    using health_score_range [of ?csv "[]" "[''sugar'', ''salt'', ''oil'']"] n v by simp
  note r = health_score_range
    [of ?inf "''sugar, salt''" "[''sugar'', ''salt'']" "upload_field ''file'' [1, 0]" ?file ?L
      "one_pixel 7"]
  have b: "health ?inf [''sugar'', ''salt''] = PyFloat PosInf"
    using r w by simp
  have c: "predict ?L ?inf (upload_field ''file'' [1, 0]) =
      Failed ''server error'' ''cannot convert float infinity to integer''"
    using r f l e hs w by simp
  show ?thesis using n v a b c by (intro conjI) simp_all
qed

text \<open>
  A table with the weight \<open>-50\<close> for sugar and the text \<open>sugar\<close>: the score is
  \<open>100 - (-50) = 150\<close>, outside the interval from 0 to 100.
\<close>

theorem health_score_above_100:
  "\<exists>n. health_score (analyse (Loaded (WithImpact [(''Sugar'', Num (Fin (- 50)))])) ''sugar'') =
          Inr n \<and>
        \<not> (0 \<le> n \<and> n \<le> 100)"
proof -
  have "health_score (analyse (Loaded (WithImpact [(''Sugar'', Num (Fin (- 50)))])) ''sugar'') =
      Inr 150"
    by code_simp
  then show ?thesis by simp
qed

text \<open>
  Claim C10. For the empty OCR text the response record is a success with the empty
  ingredients text, no token, no allergen and the health score 100, whatever the state
  of the reference table.
\<close>

theorem empty_ocr_text:
  "analyse csv [] = \<lparr> ok = True, ocr_text = [], ingredients_text = [], tokens = [],
      allergens = [], health_score = Inr 100 \<rparr>"
proof -
  have e: "extract_ingredients [] = []"
    by (simp add: extract_ingredients_def markers_def lower_def)
  have t: "tokenize [] = []"
    by (simp add: tokenize_def strip_def)
  have s: "table_stage csv [] = ([], None)"
    by (cases "(csv, [] :: string list)" rule: table_stage.cases) simp_all
  have "scorer csv [] = ([], Inr 100)"
    by (simp add: scorer_def allergens_found_def health_def s fallback_penalty_def)
  then show ?thesis by (simp add: analyse_def e t)
qed

text \<open>
  Claim C1, as amended. With the reference table absent and the tokens
  \<open>skim milk powder\<close>, \<open>sugar\<close>, \<open>salt\<close>, the allergens are \<open>milk\<close> and the health score
  is \<open>max(0, 100 - 10) = 90\<close>: the penalty vocabulary matches twice (sugar, salt) at 5
  points a match, and \<open>milk\<close> is an allergen term, not a penalty term.
\<close>

theorem fallback_example_score:
  "scorer NotFound [''skim milk powder'', ''sugar'', ''salt''] = ([''milk''], Inr 90) \<and>
   fallback_penalty [''skim milk powder'', ''sugar'', ''salt''] = 5 * 2 \<and>
   snd (scorer NotFound [''skim milk powder'', ''sugar'', ''salt'']) = Inr (max 0 (100 - 10))"
  by code_simp

text \<open>The score of that example is not the 85 of a third penalty.\<close>

theorem fallback_example_not_85:
  "snd (scorer NotFound [''skim milk powder'', ''sugar'', ''salt'']) \<noteq> Inr 85"
  by code_simp


section \<open>The ingredients snippet\<close>

lemma py_find_occurs: "py_find sub s = Some i \<Longrightarrow> i \<le> length s \<and> prefix sub (drop i s)"
proof (induction s arbitrary: i)
  case Nil
  then show ?case by (simp split: if_splits)
next
  case (Cons c cs)
  show ?case
  proof (cases "prefix sub (c # cs)")
    case True
    with Cons.prems show ?thesis by simp
  next
    case False
    with Cons.prems obtain j where j: "py_find sub cs = Some j" and i: "i = Suc j"
      by auto
    from Cons.IH [OF j] i show ?thesis by simp
  qed
qed

lemma py_find_first: "py_find sub s = Some i \<Longrightarrow> j < i \<Longrightarrow> \<not> prefix sub (drop j s)"
proof (induction s arbitrary: i j)
  case Nil
  then show ?case by (simp split: if_splits)
next
  case (Cons c cs)
  show ?case
  proof (cases "prefix sub (c # cs)")
    case True
    with Cons.prems show ?thesis by simp
  next
    case False
    with Cons.prems obtain k where k: "py_find sub cs = Some k" and i: "i = Suc k"
      by auto
    show ?thesis
    proof (cases j)
      case 0
      with False show ?thesis by simp
    next
      case (Suc j')
      with Cons.prems(2) i have "j' < k" by simp
      from Cons.IH [OF k this] Suc show ?thesis by simp
    qed
  qed
qed

lemma py_find_absent: "py_find sub s = None \<Longrightarrow> \<not> prefix sub (drop j s)"
proof (induction s arbitrary: j)
  case Nil
  then show ?case by (simp split: if_splits)
next
  case (Cons c cs)
  then have np: "\<not> prefix sub (c # cs)" and r: "py_find sub cs = None"
    by (auto split: if_splits)
  show ?case
  proof (cases j)
    case 0
    with np show ?thesis by simp
  next
    case (Suc j')
    with Cons.IH [OF r] show ?thesis by simp
  qed
qed

lemma lower_drop: "lower (drop n s) = drop n (lower s)"
  by (simp add: lower_def drop_map)

lemma lower_take: "lower (take n s) = take n (lower s)"
  by (simp add: lower_def take_map)

lemma length_lower: "length (lower s) = length s"
  by (simp add: lower_def)

text \<open>The stop index of the inner loop: the first listed stop token that occurs.\<close>

lemma find_stop_None: "find_stop ts snippet = None \<longleftrightarrow> (\<forall>t \<in> set ts. \<not> contains t (lower snippet))"
  by (induction ts) (auto simp: contains_def split: option.splits)

lemma find_stop_Some:
  "find_stop ts snippet = Some i \<Longrightarrow>
     \<exists>pre t post. ts = pre @ t # post \<and> (\<forall>u \<in> set pre. \<not> contains u (lower snippet)) \<and>
        py_find t (lower snippet) = Some i"
proof (induction ts)
  case Nil
  then show ?case by simp
next
  case (Cons t ts)
  show ?case
  proof (cases "py_find t (lower snippet)")
    case None
    with Cons.prems have "find_stop ts snippet = Some i" by simp
    from Cons.IH [OF this] obtain pre u post where
      "ts = pre @ u # post" "\<forall>v \<in> set pre. \<not> contains v (lower snippet)"
      "py_find u (lower snippet) = Some i" by blast
    then have "t # ts = (t # pre) @ u # post \<and> (\<forall>v \<in> set (t # pre). \<not> contains v (lower snippet)) \<and>
        py_find u (lower snippet) = Some i"
      using None by (simp add: contains_def)
    then show ?thesis by blast
  next
    case (Some k)
    with Cons.prems have "k = i" by simp
    with Some have "t # ts = [] @ t # ts \<and> (\<forall>v \<in> set []. \<not> contains v (lower snippet)) \<and>
        py_find t (lower snippet) = Some i" by simp
    then show ?thesis by blast
  qed
qed


lemma scan_markers_empty:
  "(\<forall>m \<in> set ms. \<not> contains m (lower ocr)) \<Longrightarrow> scan_markers ms ocr = []"
  by (induction ms) (auto simp: contains_def)

lemma scan_markers_found:
  "\<exists>m \<in> set ms. contains m (lower ocr) \<Longrightarrow>
     \<exists>pre m post idx. ms = pre @ m # post \<and> (\<forall>u \<in> set pre. \<not> contains u (lower ocr)) \<and>
        py_find m (lower ocr) = Some idx \<and> scan_markers ms ocr = cut_at_stop (drop idx ocr)"
proof (induction ms)
  case Nil
  then show ?case by simp
next
  case (Cons a ms)
  show ?case
  proof (cases "py_find a (lower ocr)")
    case None
    with Cons.prems have "\<exists>m \<in> set ms. contains m (lower ocr)"
      by (auto simp: contains_def)
    from Cons.IH [OF this] obtain pre m post idx where
      h: "ms = pre @ m # post" "\<forall>u \<in> set pre. \<not> contains u (lower ocr)"
         "py_find m (lower ocr) = Some idx" "scan_markers ms ocr = cut_at_stop (drop idx ocr)"
      by blast
    have "a # ms = (a # pre) @ m # post \<and> (\<forall>u \<in> set (a # pre). \<not> contains u (lower ocr)) \<and>
        py_find m (lower ocr) = Some idx \<and> scan_markers (a # ms) ocr = cut_at_stop (drop idx ocr)"
      using h None by (simp add: contains_def)
    then show ?thesis by blast
  next
    case (Some idx)
    then have "a # ms = [] @ a # ms \<and> (\<forall>u \<in> set []. \<not> contains u (lower ocr)) \<and>
        py_find a (lower ocr) = Some idx \<and> scan_markers (a # ms) ocr = cut_at_stop (drop idx ocr)"
      by simp
    then show ?thesis by blast
  qed
qed

lemma prefix_same_hd:
  "prefix t s \<Longrightarrow> prefix m s \<Longrightarrow> t \<noteq> [] \<Longrightarrow> m \<noteq> [] \<Longrightarrow> hd t = hd m"
  by (cases t; cases m; cases s) auto

lemma stop_marker_heads:
  "t \<in> set stop_tokens \<Longrightarrow> m \<in> set markers \<Longrightarrow> t \<noteq> [] \<and> m \<noteq> [] \<and> hd t \<noteq> hd m"
  by (auto simp: stop_tokens_def markers_def)

text \<open>A snippet that begins with a marker is never cut to nothing.\<close>

lemma cut_at_stop_cases:
  "((\<forall>t \<in> set stop_tokens. \<not> contains t (lower snippet)) \<and> cut_at_stop snippet = snippet) \<or>
   (\<exists>pre t post i. stop_tokens = pre @ t # post \<and>
      (\<forall>u \<in> set pre. \<not> contains u (lower snippet)) \<and>
      prefix t (drop i (lower snippet)) \<and> (\<forall>j < i. \<not> prefix t (drop j (lower snippet))) \<and>
      cut_at_stop snippet = take i snippet)"
proof (cases "find_stop stop_tokens snippet")
  case None
  then have "\<forall>t \<in> set stop_tokens. \<not> contains t (lower snippet)"
    by (simp add: find_stop_None)
  moreover have "cut_at_stop snippet = snippet" using None by (simp add: cut_at_stop_def)
  ultimately show ?thesis by blast
next
  case (Some i)
  from find_stop_Some [OF Some] obtain pre t post where
    h: "stop_tokens = pre @ t # post" "\<forall>u \<in> set pre. \<not> contains u (lower snippet)"
       "py_find t (lower snippet) = Some i" by blast
  have "prefix t (drop i (lower snippet))" using py_find_occurs [OF h(3)] by simp
  moreover have "\<forall>j < i. \<not> prefix t (drop j (lower snippet))"
    using py_find_first [OF h(3)] by blast
  moreover have "cut_at_stop snippet = take i snippet" using Some by (simp add: cut_at_stop_def)
  ultimately show ?thesis using h(1,2) by blast
qed

lemma cut_at_stop_nonempty:
  assumes m: "m \<in> set markers" and p: "prefix m (lower snippet)"
  shows "cut_at_stop snippet \<noteq> []"
proof -
  have ne: "snippet \<noteq> []" using p stop_marker_heads m
    by (auto simp: markers_def lower_def)
  show ?thesis
  proof (cases "find_stop stop_tokens snippet")
    case None
    then show ?thesis using ne by (simp add: cut_at_stop_def)
  next
    case (Some i)
    from find_stop_Some [OF Some] obtain pre t post where
      h: "stop_tokens = pre @ t # post" "py_find t (lower snippet) = Some i" by blast
    have t: "t \<in> set stop_tokens" by (metis h(1) in_set_conv_decomp)
    have "i \<noteq> 0"
    proof
      assume "i = 0"
      then have "prefix t (lower snippet)" using py_find_occurs [OF h(2)] by simp
      then have "hd t = hd m"
        using p stop_marker_heads [OF t m] by (auto intro: prefix_same_hd)
      then show False using stop_marker_heads [OF t m] by simp
    qed
    then show ?thesis using Some ne by (simp add: cut_at_stop_def)
  qed
qed

subsection \<open>The cut on all code points\<close>













text \<open>
  A text with \<open>U+0130\<close> before the marker: the lower-cased text is one code point longer
  up to the marker, the index found there is one too far in the original text, and the
  snippet begins inside the marker.
\<close>

lemma dotted_capital_moves_the_cut:
  "u_extract_ingredients latin_lower ([304, 32] @ code_points ''Ingredients: milk'') =
     code_points ''ngredients: milk'' \<and>
   \<not> lower_fits latin_lower ([304, 32] @ code_points ''Ingredients: milk'')"
proof -
  let ?ocr = "[304, 32] @ code_points ''Ingredients: milk''"
  have v: "u_extract_ingredients latin_lower ?ocr = code_points ''ngredients: milk''"
    by code_simp
  have a: "code_points ''ingredients'' \<in> set u_markers" by code_simp
  have b: "prefix (code_points ''ingredients'') (drop 3 (latin_lower ?ocr))" by code_simp
  have c: "latin_lower (drop 3 ?ocr) \<noteq> drop 3 (latin_lower ?ocr)" by code_simp
  have "\<not> lower_fits latin_lower ?ocr"
    using a b c unfolding lower_fits_def by blast
  then show ?thesis using v by simp
qed

text \<open>
  On the texts of the code points below 256 the extraction on code points is the
  extraction on strings that the rest of the route uses.
\<close>

lemma prefix_code_points: "prefix (code_points a) (code_points b) \<longleftrightarrow> prefix a b"
proof (induction a arbitrary: b)
  case Nil
  show ?case by (simp add: code_points_def)
next
  case (Cons x xs)
  show ?case
  proof (cases b)
    case Nil
    then show ?thesis by (simp add: code_points_def)
  next
    case (Cons y ys)
    have "(of_char x :: nat) = of_char y \<longleftrightarrow> x = y" by (rule of_char_eq_iff)
    then show ?thesis using Cons.IH [of ys] Cons by (simp add: code_points_def)
  qed
qed

lemma code_points_simps:
  "take i (code_points s) = code_points (take i s)"
  "drop i (code_points s) = code_points (drop i s)"
  "code_points s = [] \<longleftrightarrow> s = []"
  by (simp_all add: code_points_def take_map drop_map)

lemma u_find_code_points: "u_find (code_points sub) (code_points s) = py_find sub s"
proof (induction s)
  case Nil
  show ?case by (simp add: code_points_def)
next
  case (Cons c cs)
  have p: "prefix (code_points sub) (code_points (c # cs)) \<longleftrightarrow> prefix sub (c # cs)"
    by (rule prefix_code_points)
  have c: "code_points (c # cs) = of_char c # code_points cs" by (simp add: code_points_def)
  show ?case using Cons p unfolding c by simp
qed

lemma lower_code_point_of_char:
  "lower_code_point (of_char c) = [of_char (lower_char c)]"
proof -
  have l: "(of_char c :: nat) < 256" by simp
  then have ne: "(of_char c :: nat) \<noteq> 304" by linarith
  show ?thesis
  proof (cases "(65 \<le> (of_char c :: nat) \<and> (of_char c :: nat) \<le> 90) \<or>
      (192 \<le> (of_char c :: nat) \<and> (of_char c :: nat) \<le> 222 \<and> (of_char c :: nat) \<noteq> 215)")
    case True
    then have "(of_char c :: nat) + 32 < 256" by linarith
    then have "(of_char (char_of ((of_char c :: nat) + 32)) :: nat) = of_char c + 32"
      by (simp add: of_char_of)
    then show ?thesis using True by (simp add: lower_code_point_def lower_char_def Let_def)
  next
    case False
    then show ?thesis using ne by (auto simp: lower_code_point_def lower_char_def Let_def)
  qed
qed

lemma latin_lower_code_points: "latin_lower (code_points s) = code_points (lower s)"
  by (induction s)
    (simp_all add: latin_lower_def code_points_def lower_def lower_code_point_of_char)

lemma u_find_stop_code_points:
  "u_find_stop latin_lower (map code_points ts) (code_points s) = find_stop ts s"
  by (induction ts)
    (simp_all add: latin_lower_code_points u_find_code_points split: option.splits)

lemma u_cut_at_stop_code_points:
  "u_cut_at_stop latin_lower (code_points s) = code_points (cut_at_stop s)"
  by (simp add: u_cut_at_stop_def cut_at_stop_def u_stop_tokens_def u_find_stop_code_points
      code_points_simps split: option.splits)

lemma u_scan_markers_code_points:
  "u_scan_markers latin_lower (map code_points ms) (code_points s) =
     code_points (scan_markers ms s)"
proof (induction ms)
  case Nil
  show ?case by (simp add: code_points_def)
next
  case (Cons m ms)
  show ?case
    using Cons
    by (simp add: latin_lower_code_points u_find_code_points code_points_simps
        u_cut_at_stop_code_points split: option.splits)
qed

lemma u_extract_ingredients_code_points:
  "u_extract_ingredients latin_lower (code_points s) = code_points (extract_ingredients s)"
  by (simp add: u_extract_ingredients_def extract_ingredients_def u_markers_def
      u_scan_markers_code_points Let_def code_points_simps)



text \<open>
  Claim C5 at a text with the marker \<open>ingredients as served\<close> after an earlier occurrence
  of \<open>ingredients\<close>: the snippet begins at position 0 and not at position 15, where the
  marker of highest priority in the claim begins.
\<close>

theorem marker_order_failing_input:
  "py_find ''ingredients as served'' (lower ''Ingredients x. INGREDIENTS AS SERVED: oats, milk'') = Some 15 \<and>
   extract_ingredients ''Ingredients x. INGREDIENTS AS SERVED: oats, milk'' =
     ''Ingredients x. INGREDIENTS AS SERVED: oats, milk'' \<and>
   extract_ingredients ''Ingredients x. INGREDIENTS AS SERVED: oats, milk'' \<noteq>
     ''INGREDIENTS AS SERVED: oats, milk''"
  by code_simp

text \<open>
  The marker \<open>ingredients as served\<close> stands behind its own prefix \<open>ingredients\<close> in the
  list, so it never decides the result.
\<close>

lemma served_marker_never_wins:
  "scan_markers markers ocr = scan_markers [''ingredients'', ''ingredient''] ocr"
proof (cases "py_find ''ingredients'' (lower ocr)")
  case None
  have "py_find ''ingredients as served'' (lower ocr) = None"
  proof (rule ccontr)
    assume "py_find ''ingredients as served'' (lower ocr) \<noteq> None"
    then obtain i where "py_find ''ingredients as served'' (lower ocr) = Some i" by blast
    then have "prefix ''ingredients as served'' (drop i (lower ocr))"
      using py_find_occurs by blast
    moreover have "prefix ''ingredients'' ''ingredients as served''" by simp
    ultimately have "prefix ''ingredients'' (drop i (lower ocr))"
      by (rule prefix_order.trans [rotated])
    then show False using py_find_absent [OF None] by blast
  qed
  with None show ?thesis by (simp add: markers_def)
next
  case (Some idx)
  then show ?thesis by (simp add: markers_def)
qed

section \<open>The token list\<close>

declare re_split.simps [simp del]

lemma re_split_unfold_last:
  assumes "dropWhile (\<lambda>c. \<not> is_sep c) s = []"
  shows "re_split s = [s]"
  by (subst re_split.simps) (simp only: assms list.case)

lemma re_split_unfold_more:
  assumes "dropWhile (\<lambda>c. \<not> is_sep c) s = x # rest"
  shows "re_split s = takeWhile (\<lambda>c. \<not> is_sep c) s # re_split (dropWhile is_sep rest)"
  by (subst re_split.simps) (simp only: assms list.case)

lemma re_split_no_sep: "p \<in> set (re_split s) \<Longrightarrow> c \<in> set p \<Longrightarrow> \<not> is_sep c"
proof (induction s arbitrary: p rule: re_split.induct)
  case (1 s)
  show ?case
  proof (cases "dropWhile (\<lambda>c. \<not> is_sep c) s")
    case Nil
    then have "re_split s = [s]" by (rule re_split_unfold_last)
    with "1.prems" have "c \<in> set s" by simp
    with Nil show ?thesis by (simp add: dropWhile_eq_Nil_conv)
  next
    case (Cons x rest)
    note eq = re_split_unfold_more [OF Cons]
    from "1.prems"(1) eq
    consider "p = takeWhile (\<lambda>c. \<not> is_sep c) s" | "p \<in> set (re_split (dropWhile is_sep rest))"
      by auto
    then show ?thesis
    proof cases
      case 1
      with "1.prems"(2) show ?thesis by (auto dest: set_takeWhileD)
    next
      case 2
      from "1.IH" [OF Cons 2 "1.prems"(2)] show ?thesis .
    qed
  qed
qed

lemma filter_dropWhile_sep:
  "filter (\<lambda>c. \<not> is_sep c) (dropWhile is_sep xs) = filter (\<lambda>c. \<not> is_sep c) xs"
  by (induction xs) auto

lemma filter_takeWhile_same: "filter P (takeWhile P xs) = takeWhile P xs"
  by (induction xs) auto

lemma concat_re_split: "concat (re_split s) = filter (\<lambda>c. \<not> is_sep c) s"
proof (induction s rule: re_split.induct)
  case (1 s)
  let ?P = "\<lambda>c. \<not> is_sep c"
  show ?case
  proof (cases "dropWhile ?P s")
    case Nil
    then have "re_split s = [s]" by (rule re_split_unfold_last)
    moreover from Nil have "filter ?P s = s" by (simp add: dropWhile_eq_Nil_conv)
    ultimately show ?thesis by simp
  next
    case (Cons x rest)
    have x: "is_sep x" using hd_dropWhile [of ?P s] Cons by simp
    have "filter ?P s = filter ?P (takeWhile ?P s @ dropWhile ?P s)" by simp
    also have "\<dots> = takeWhile ?P s @ filter ?P (x # rest)"
      unfolding filter_append Cons by (simp only: filter_takeWhile_same)
    also have "\<dots> = takeWhile ?P s @ filter ?P (dropWhile is_sep rest)"
      using x by (simp add: filter_dropWhile_sep)
    also have "\<dots> = concat (re_split s)"
      using "1.IH" [OF Cons] re_split_unfold_more [OF Cons] by simp
    finally show ?thesis by simp
  qed
qed

lemma last_dropWhile_nonempty: "dropWhile P xs \<noteq> [] \<Longrightarrow> last (dropWhile P xs) = last xs"
  by (metis last_appendR takeWhile_dropWhile_id)

lemma strip_subset: "set (strip s) \<subseteq> set s"
  unfolding strip_def by (auto dest!: set_dropWhileD)

lemma strip_hd: "strip s \<noteq> [] \<Longrightarrow> \<not> isspace (hd (strip s))"
proof -
  assume ne: "strip s \<noteq> []"
  let ?a = "dropWhile isspace s"
  let ?b = "dropWhile isspace (rev ?a)"
  have b: "?b \<noteq> []" using ne by (simp add: strip_def)
  then have a: "?a \<noteq> []" by (auto dest: set_dropWhileD)
  have "hd (strip s) = last ?b" using b by (simp add: strip_def hd_rev)
  also have "\<dots> = last (rev ?a)" using b by (rule last_dropWhile_nonempty)
  also have "\<dots> = hd ?a" using a by (simp add: last_rev)
  finally show ?thesis using hd_dropWhile [OF a] by simp
qed

lemma strip_last: "strip s \<noteq> [] \<Longrightarrow> \<not> isspace (last (strip s))"
proof -
  assume ne: "strip s \<noteq> []"
  let ?b = "dropWhile isspace (rev (dropWhile isspace s))"
  have b: "?b \<noteq> []" using ne by (simp add: strip_def)
  have "last (strip s) = hd ?b" using b by (simp add: strip_def last_rev)
  then show ?thesis using hd_dropWhile [OF b] by simp
qed

lemma tokenize_alt: "tokenize s = filter (\<lambda>t. t \<noteq> []) (map strip (re_split s))"
  by (simp add: tokenize_def filter_map comp_def)

lemma tokenize_token:
  assumes "t \<in> set (tokenize s)"
  shows "t \<noteq> [] \<and> \<not> isspace (hd t) \<and> \<not> isspace (last t) \<and> (\<forall>c \<in> set t. \<not> is_sep c)"
proof -
  from assms obtain p where p: "p \<in> set (re_split s)" and t: "t = strip p" and ne: "strip p \<noteq> []"
    by (auto simp: tokenize_def)
  have "\<forall>c \<in> set t. \<not> is_sep c"
    using re_split_no_sep [OF p] strip_subset [of p] t by blast
  then show ?thesis using t ne strip_hd [OF ne] strip_last [OF ne] by simp
qed

text \<open>
  Claim C9. The token list is obtained by splitting the ingredients text on runs of comma,
  semicolon and newline, trimming each piece and dropping the empty ones. The pieces hold
  no separator, and put together they are the text without its separators, so the order of
  the text is kept. Every token is non-empty, begins and ends with a character that is not
  white space, and holds no separator. The response exposes the first 200 tokens at most.
\<close>

theorem tokens_split_trim_drop_cap:
  "tokens (analyse csv ocr) = take 200 (tokenize (extract_ingredients ocr)) \<and>
   length (tokens (analyse csv ocr)) \<le> 200 \<and>
   tokenize s = filter (\<lambda>t. t \<noteq> []) (map strip (re_split s)) \<and>
   concat (re_split s) = filter (\<lambda>c. \<not> is_sep c) s \<and>
   (\<forall>p \<in> set (re_split s). \<forall>c \<in> set p. \<not> is_sep c) \<and>
   (\<forall>t \<in> set (tokenize s).
      t \<noteq> [] \<and> \<not> isspace (hd t) \<and> \<not> isspace (last t) \<and> (\<forall>c \<in> set t. \<not> is_sep c))"
proof -
  have a: "tokens (analyse csv ocr) = take 200 (tokenize (extract_ingredients ocr))"
    by (simp add: analyse_def Let_def split: prod.splits)
  then have b: "length (tokens (analyse csv ocr)) \<le> 200" by simp
  show ?thesis
    using a b tokenize_alt [of s] concat_re_split [of s] re_split_no_sep [of _ s]
      tokenize_token [of _ s]
    by blast
qed


theorem tokens_split_trim_drop_cap_witness:
  "tokens (analyse NotFound ''Ingredients: Water , Sugar;; Salt'') =
     [''Ingredients: Water'', ''Sugar'', ''Salt''] \<and>
   length (tokens (analyse NotFound ''Ingredients: Water , Sugar;; Salt'')) \<le> 200 \<and>
   re_split ''Ingredients: Water , Sugar;; Salt'' = [''Ingredients: Water '', '' Sugar'', '' Salt''] \<and>
   ''Sugar'' \<in> set (tokenize ''Ingredients: Water , Sugar;; Salt'') \<and>
   \<not> isspace (hd ''Sugar'') \<and> \<not> isspace (last ''Sugar'') \<and> \<not> is_sep (CHR ''g'')"
proof -
  note t = tokens_split_trim_drop_cap
    [of NotFound "''Ingredients: Water , Sugar;; Salt''" "''Ingredients: Water , Sugar;; Salt''"]
  have v: "take 200 (tokenize (extract_ingredients ''Ingredients: Water , Sugar;; Salt'')) =
     [''Ingredients: Water'', ''Sugar'', ''Salt'']"
    by code_simp
  have r: "re_split ''Ingredients: Water , Sugar;; Salt'' =
     [''Ingredients: Water '', '' Sugar'', '' Salt'']"
    by code_simp
  have m: "''Sugar'' \<in> set (tokenize ''Ingredients: Water , Sugar;; Salt'')"
    by code_simp
  have a: "tokens (analyse NotFound ''Ingredients: Water , Sugar;; Salt'') =
     [''Ingredients: Water'', ''Sugar'', ''Salt'']"
    using t [THEN conjunct1] v by (rule trans)
  have b: "length (tokens (analyse NotFound ''Ingredients: Water , Sugar;; Salt'')) \<le> 200"
    using t [THEN conjunct2, THEN conjunct1] .
  have c: "''Sugar'' \<noteq> [] \<and> \<not> isspace (hd ''Sugar'') \<and> \<not> isspace (last ''Sugar'') \<and>
      (\<forall>c \<in> set ''Sugar''. \<not> is_sep c)"
    using t [THEN conjunct2, THEN conjunct2, THEN conjunct2, THEN conjunct2, THEN conjunct2,
      THEN bspec, OF m] .
  have g: "CHR ''g'' \<in> set ''Sugar''" by simp
  have d: "\<not> is_sep (CHR ''g'')"
    using c [THEN conjunct2, THEN conjunct2, THEN conjunct2, THEN bspec, OF g] .
  show ?thesis
    using a b r m c [THEN conjunct2, THEN conjunct1]
      c [THEN conjunct2, THEN conjunct2, THEN conjunct1] d
    by (intro conjI)
qed


section \<open>The variant search: the best of all combinations\<close>

text \<open>
  The loop over the modes keeps the best score seen so far, counts the text of every
  combination that the engine reads, and never ends below zero once a mode has been tried.
\<close>

lemma try_modes_keeps_best: "fst best \<le> fst (try_modes L img psms best)"
proof (induction psms arbitrary: best)
  case Nil
  show ?case by simp
next
  case (Cons psm psms)
  obtain bs bt where best: "best = (bs, bt)" by (cases best)
  let ?txt = "case ocr_image_cv L img psm of Inl e \<Rightarrow> [] | Inr t \<Rightarrow> t"
  let ?next = "if score_text ?txt > bs then (score_text ?txt, ?txt) else (bs, bt)"
  have "bs \<le> fst ?next" by simp
  also have "\<dots> \<le> fst (try_modes L img psms ?next)" by (rule Cons.IH)
  finally show ?case by (simp add: best Let_def)
qed

lemma try_modes_counts_each:
  assumes "psm \<in> set psms" and "ocr_image_cv L img psm = Inr t"
  shows "score_text t \<le> fst (try_modes L img psms best)"
  using assms(1)
proof (induction psms arbitrary: best)
  case Nil
  then show ?case by simp
next
  case (Cons p psms)
  obtain bs bt where best: "best = (bs, bt)" by (cases best)
  let ?txt = "case ocr_image_cv L img p of Inl e \<Rightarrow> [] | Inr t \<Rightarrow> t"
  let ?next = "if score_text ?txt > bs then (score_text ?txt, ?txt) else (bs, bt)"
  have step: "try_modes L img (p # psms) best = try_modes L img psms ?next"
    by (simp add: best Let_def)
  show ?case
  proof (cases "p = psm")
    case True
    then have "?txt = t" using assms(2) by simp
    then have "score_text t \<le> fst ?next" by simp
    also have "\<dots> \<le> fst (try_modes L img psms ?next)" by (rule try_modes_keeps_best)
    finally show ?thesis by (simp only: step)
  next
    case False
    with Cons.prems have "psm \<in> set psms" by simp
    then have "score_text t \<le> fst (try_modes L img psms ?next)" by (rule Cons.IH)
    then show ?thesis by (simp only: step)
  qed
qed

lemma score_text_nonneg: "0 \<le> score_text text"
  by (simp add: score_text_def)

lemma try_modes_nonneg: "psms \<noteq> [] \<Longrightarrow> 0 \<le> fst (try_modes L img psms best)"
proof (cases psms)
  case Nil
  assume "psms \<noteq> []"
  with Nil show ?thesis by simp
next
  case (Cons p ps)
  obtain bs bt where best: "best = (bs, bt)" by (cases best)
  let ?txt = "case ocr_image_cv L img p of Inl e \<Rightarrow> [] | Inr t \<Rightarrow> t"
  let ?next = "if score_text ?txt > bs then (score_text ?txt, ?txt) else (bs, bt)"
  have "0 \<le> fst ?next" using score_text_nonneg [of ?txt] by auto
  also have "\<dots> \<le> fst (try_modes L img ps ?next)" by (rule try_modes_keeps_best)
  finally show ?thesis by (simp add: Cons best Let_def)
qed

lemma hd_sort_key_least:
  fixes f :: "'a \<Rightarrow> int"
  assumes "x \<in> set xs"
  shows "f (hd (sort_key f xs)) \<le> f x"
proof -
  let ?ys = "sort_key f xs"
  have x: "x \<in> set ?ys" using assms by simp
  then obtain a as where ys: "?ys = a # as" by (cases ?ys) auto
  have "sorted (map f ?ys)" by (rule sorted_sort_key)
  then have "\<forall>y \<in> set as. f a \<le> f y" by (simp add: ys)
  then show ?thesis using x by (auto simp: ys)
qed

lemma main_best_of_results:
  assumes "r \<in> set (variant_results L (preprocess_variants L pil))"
  shows "\<exists>best. main L pil = Some best \<and> fst (snd r) \<le> fst (snd best)"
proof -
  let ?rs = "variant_results L (preprocess_variants L pil)"
  let ?ys = "results_sorted ?rs"
  have "r \<in> set ?ys" using assms by (simp add: results_sorted_def)
  then obtain a as where ys: "?ys = a # as" by (cases ?ys) auto
  have "- fst (snd (hd ?ys)) \<le> - fst (snd r)"
    unfolding results_sorted_def using assms by (rule hd_sort_key_least)
  then have "fst (snd r) \<le> fst (snd a)" by (simp add: ys)
  moreover have "main L pil = Some a" by (simp add: main_def ys)
  ultimately show ?thesis by blast
qed

lemma variant_result_member:
  assumes "(name, img) \<in> set vs"
  shows "(name, try_modes L img psm_modes (- 1, [])) \<in> set (variant_results L vs)"
  using assms by (force simp: variant_results_def)

lemma main_counts_each_combination:
  assumes v: "(name, img) \<in> set (preprocess_variants L pil)"
    and p: "psm \<in> set psm_modes"
    and t: "ocr_image_cv L img psm = Inr t"
  shows "\<exists>best. main L pil = Some best \<and> score_text t \<le> fst (snd best)"
proof -
  let ?r = "(name, try_modes L img psm_modes (- 1, []))"
  have "?r \<in> set (variant_results L (preprocess_variants L pil))"
    using v by (rule variant_result_member)
  from main_best_of_results [OF this] obtain best where
    b: "main L pil = Some best" "fst (snd ?r) \<le> fst (snd best)" by blast
  have "score_text t \<le> fst (try_modes L img psm_modes (- 1, []))"
    using p t by (rule try_modes_counts_each)
  then have "score_text t \<le> fst (snd best)" using b(2) by simp
  with b(1) show ?thesis by blast
qed

lemma main_nonneg:
  assumes v: "(name, img) \<in> set (preprocess_variants L pil)"
  shows "\<exists>best. main L pil = Some best \<and> 0 \<le> fst (snd best)"
proof -
  let ?r = "(name, try_modes L img psm_modes (- 1, []))"
  have "?r \<in> set (variant_results L (preprocess_variants L pil))"
    using v by (rule variant_result_member)
  from main_best_of_results [OF this] obtain best where
    b: "main L pil = Some best" "fst (snd ?r) \<le> fst (snd best)" by blast
  have "0 \<le> fst (try_modes L img psm_modes (- 1, []))"
    by (rule try_modes_nonneg) (simp add: psm_modes_def)
  then have "0 \<le> fst (snd best)" using b(2) by simp
  with b(1) show ?thesis by blast
qed


text \<open>
  The conversion loop at the end of \<open>preprocess_variants\<close> replaces values and keeps
  the keys, so the variant \<open>adaptive_thresh\<close> is always among the variants.
\<close>

lemma convert_fold_keeps_keys:
  "k \<in> fst ` set ys \<Longrightarrow>
     k \<in> fst ` set (fold (\<lambda>(k, v) vs. if P v then AList.update k (g v) vs else vs) xs ys)"
proof (induction xs arbitrary: ys)
  case Nil
  then show ?case by simp
next
  case (Cons x xs)
  obtain k' v' where x: "x = (k', v')" by (cases x)
  have "k \<in> fst ` set (if P v' then AList.update k' (g v') ys else ys)"
    using Cons.prems by (simp add: AList.dom_update)
  from Cons.IH [OF this] show ?case by (simp add: x)
qed

lemma adaptive_thresh_variant:
  "''adaptive_thresh'' \<in> fst ` set (preprocess_variants L pil)"
  unfolding preprocess_variants_def Let_def split_def
  by (rule convert_fold_keeps_keys [unfolded split_def]) (simp add: AList.dom_update)

lemma adaptive_thresh_lookup:
  "\<exists>img. map_of (preprocess_variants L pil) ''adaptive_thresh'' = Some img \<and>
      (''adaptive_thresh'', img) \<in> set (preprocess_variants L pil)"
proof -
  have "map_of (preprocess_variants L pil) ''adaptive_thresh'' \<noteq> None"
    using adaptive_thresh_variant [of L pil] by (simp add: map_of_eq_None_iff)
  then obtain img where "map_of (preprocess_variants L pil) ''adaptive_thresh'' = Some img"
    by blast
  then show ?thesis by (blast dest: map_of_SomeD)
qed


lemma best_of_variants_exists: "\<exists>best. main L pil = Some best"
proof -
  from adaptive_thresh_lookup [of L pil] obtain img where
    "(''adaptive_thresh'', img) \<in> set (preprocess_variants L pil)" by blast
  from main_nonneg [OF this] show ?thesis by blast
qed

text \<open>
  Claim C7. For every input image the variant search returns a result, and its score is
  not below the score of the default path run alone on the same image, that is the
  variant \<open>adaptive_thresh\<close> of \<open>preprocess_variants\<close> read by \<open>ocr_image_cv\<close> in its
  default mode \<open>--psm 6\<close> and scored by \<open>score_text\<close>. When the engine raises on that
  path it has no score and there is nothing to compare with; the score returned is never
  negative.
\<close>

theorem best_of_variants_not_below_single_path:
  "\<exists>name score text. main L pil = Some (name, score, text) \<and> 0 \<le> score \<and>
      (case single_path_score L pil of None \<Rightarrow> True | Some s \<Rightarrow> s \<le> score)"
proof -
  from adaptive_thresh_lookup [of L pil] obtain img where
    m: "map_of (preprocess_variants L pil) ''adaptive_thresh'' = Some img"
    and v: "(''adaptive_thresh'', img) \<in> set (preprocess_variants L pil)" by blast
  from main_nonneg [OF v] obtain best where
    b: "main L pil = Some best" and n: "0 \<le> fst (snd best)" by blast
  have "case single_path_score L pil of None \<Rightarrow> True | Some s \<Rightarrow> s \<le> fst (snd best)"
  proof (cases "ocr_image_cv L img ''--psm 6''")
    case (Inl e)
    then show ?thesis by (simp add: single_path_score_def m)
  next
    case (Inr t)
    have "''--psm 6'' \<in> set psm_modes" by (simp add: psm_modes_def)
    from main_counts_each_combination [OF v this Inr] b
    have "score_text t \<le> fst (snd best)" by simp
    then show ?thesis by (simp add: single_path_score_def m Inr)
  qed
  then have "main L pil = Some (fst best, fst (snd best), snd (snd best)) \<and> 0 \<le> fst (snd best) \<and>
      (case single_path_score L pil of None \<Rightarrow> True | Some s \<Rightarrow> s \<le> fst (snd best))"
    using b n by simp
  then show ?thesis by blast
qed

theorem best_of_variants_not_below_single_path_witness:
  "main (stub_libs sample_engine) (one_pixel 7) =
     Some (''inv_adapt'', 4, ''ingredients: oat flakes, sugar'') \<and>
   single_path_score (stub_libs sample_engine) (one_pixel 7) = Some 2 \<and>
   (\<exists>name score text. main (stub_libs sample_engine) (one_pixel 7) = Some (name, score, text) \<and>
      0 \<le> score \<and>
      (case single_path_score (stub_libs sample_engine) (one_pixel 7) of
         None \<Rightarrow> True | Some s \<Rightarrow> s \<le> score))"
proof -
  have a: "main (stub_libs sample_engine) (one_pixel 7) =
     Some (''inv_adapt'', 4, ''ingredients: oat flakes, sugar'')"
    by code_simp
  have b: "single_path_score (stub_libs sample_engine) (one_pixel 7) = Some 2"
    by code_simp
  show ?thesis
    using a b best_of_variants_not_below_single_path [of "stub_libs sample_engine" "one_pixel 7"]
    by (intro conjI)
qed

section \<open>Failures of the recognition engine\<close>

text \<open>
  The variants do not depend on the engine, and the loop over the modes gives the same
  result when every exception of the engine is replaced by the empty text.
\<close>

lemma preprocess_variants_engine:
  "preprocess_variants (L\<lparr>image_to_string := engine\<rparr>) pil = preprocess_variants L pil"
proof -
  let ?L = "L\<lparr>image_to_string := engine\<rparr>"
  have sel: "cvtColor ?L = cvtColor L" "resize ?L = resize L"
    "adaptiveThreshold ?L = adaptiveThreshold L" "bilateralFilter ?L = bilateralFilter L"
    "GaussianBlur ?L = GaussianBlur L" "threshold_otsu ?L = threshold_otsu L"
    "filter2D ?L = filter2D L" "bitwise_not ?L = bitwise_not L"
    "minAreaRect_angle ?L = minAreaRect_angle L" "warp_rotate ?L = warp_rotate L"
    by simp_all
  show ?thesis
    unfolding preprocess_variants_def resize_for_ocr_def deskew_image_def sharpen_image_cv_def
    by (simp only: sel)
qed

lemma try_modes_recovered:
  "try_modes (L\<lparr>image_to_string := recovered (image_to_string L)\<rparr>) img psms best =
     try_modes L img psms best"
proof (induction psms arbitrary: best)
  case Nil
  show ?case by simp
next
  case (Cons psm psms)
  obtain bs bt where best: "best = (bs, bt)" by (cases best)
  have "(case ocr_image_cv (L\<lparr>image_to_string := recovered (image_to_string L)\<rparr>) img psm of
           Inl e \<Rightarrow> [] | Inr t \<Rightarrow> t) =
        (case ocr_image_cv L img psm of Inl e \<Rightarrow> [] | Inr t \<Rightarrow> t)"
    by (simp add: ocr_image_cv_def recovered_def split: sum.splits)
  then show ?case by (simp add: best Let_def Cons.IH)
qed

lemma main_recovered:
  "main (L\<lparr>image_to_string := recovered (image_to_string L)\<rparr>) pil = main L pil"
  by (simp add: main_def variant_results_def preprocess_variants_engine try_modes_recovered)

text \<open>
  Claim C3, as amended. In the variant search of \<open>test_ocr.py\<close> a failure of the engine
  on one combination of variant and mode is caught and counts as the empty text, whose
  score is zero: the search returns what it would return with an engine that answers the
  empty text instead of raising, it always returns a result, and every combination that
  the engine does read is still counted towards the best score. In the route
  \<open>/predict\<close>, which runs one combination only, a failure of the engine ends the request
  with the error \<open>tesseract failed\<close> and the message of the exception.
\<close>

theorem engine_failure_absorbed_in_variant_search:
  "main L pil = main (L\<lparr>image_to_string := recovered (image_to_string L)\<rparr>) pil \<and>
   score_text [] = 0 \<and>
   main L pil \<noteq> None \<and>
   ((name, img) \<in> set (preprocess_variants L pil) \<and> psm \<in> set psm_modes \<and>
      ocr_image_cv L img psm = Inr t \<longrightarrow>
        (\<exists>best. main L pil = Some best \<and> score_text t \<le> fst (snd best))) \<and>
   (pick_file files = Some file \<and> load_image L (content file) = Inr img_bgr \<and>
      image_to_string L (preprocess L img_bgr) ''--oem 3 --psm 6'' = Inl e \<longrightarrow>
        predict L csv files = Failed ''tesseract failed'' e)"
proof -
  have a: "main L pil = main (L\<lparr>image_to_string := recovered (image_to_string L)\<rparr>) pil"
    by (simp add: main_recovered)
  have b: "score_text [] = 0" by (simp add: score_text_def)
  have c: "main L pil \<noteq> None"
    using best_of_variants_exists [of L pil] by auto
  have d: "\<exists>best. main L pil = Some best \<and> score_text t \<le> fst (snd best)"
    if "(name, img) \<in> set (preprocess_variants L pil)" "psm \<in> set psm_modes"
      "ocr_image_cv L img psm = Inr t"
    using that by (rule main_counts_each_combination)
  have e: "predict L csv files = Failed ''tesseract failed'' e"
    if "pick_file files = Some file" "load_image L (content file) = Inr img_bgr"
      "image_to_string L (preprocess L img_bgr) ''--oem 3 --psm 6'' = Inl e"
    using that by (simp add: predict_def)
  show ?thesis using a b c d e by blast
qed

theorem engine_failure_absorbed_in_variant_search_witness:
  "ocr_image_cv (stub_libs sample_engine)
     (the (map_of (preprocess_variants (stub_libs sample_engine) (one_pixel 7)) ''inv_adapt''))
     ''--psm 11'' = Inl ''engine failure'' \<and>
   main (stub_libs sample_engine) (one_pixel 7) =
     main ((stub_libs sample_engine)\<lparr>image_to_string := recovered sample_engine\<rparr>) (one_pixel 7) \<and>
   (\<exists>best. main (stub_libs sample_engine) (one_pixel 7) = Some best \<and>
      score_text ''ingredients: oat flakes, sugar'' \<le> fst (snd best)) \<and>
   predict (stub_libs sample_engine) NotFound (upload_field ''file'' [1, 0]) =
     Failed ''tesseract failed'' ''engine failure''"
proof -
  let ?L = "stub_libs sample_engine"
  let ?img = "the (map_of (preprocess_variants ?L (one_pixel 7)) ''inv_adapt'')"
  let ?file = "\<lparr> filename = ''label.jpg'', content = [1, 0] \<rparr>"
  have fails: "ocr_image_cv ?L ?img ''--psm 11'' = Inl ''engine failure''" by code_simp
  have v: "(''inv_adapt'', ?img) \<in> set (preprocess_variants ?L (one_pixel 7))" by code_simp
  have p: "''--psm 3'' \<in> set psm_modes" by code_simp
  have r: "ocr_image_cv ?L ?img ''--psm 3'' = Inr ''ingredients: oat flakes, sugar''"
    by code_simp
  have f: "pick_file (upload_field ''file'' [1, 0]) = Some ?file" by code_simp
  have l: "load_image ?L (content ?file) = Inr (one_pixel 7)" by code_simp
  have e: "image_to_string ?L (preprocess ?L (one_pixel 7)) ''--oem 3 --psm 6'' =
      Inl ''engine failure''" by code_simp
  have s: "image_to_string ?L = sample_engine" by (simp add: stub_libs_def)
  note t = engine_failure_absorbed_in_variant_search
    [of ?L "one_pixel 7" "''inv_adapt''" ?img "''--psm 3''" "''ingredients: oat flakes, sugar''"
      "upload_field ''file'' [1, 0]" ?file "one_pixel 7" "''engine failure''" NotFound]
  have a: "main ?L (one_pixel 7) =
      main (?L\<lparr>image_to_string := recovered sample_engine\<rparr>) (one_pixel 7)"
    using t s by simp
  have b: "\<exists>best. main ?L (one_pixel 7) = Some best \<and>
      score_text ''ingredients: oat flakes, sugar'' \<le> fst (snd best)"
    using t v p r by blast
  have c: "predict ?L NotFound (upload_field ''file'' [1, 0]) =
      Failed ''tesseract failed'' ''engine failure''"
    using t f l e by blast
  show ?thesis using fails a b c by (intro conjI)
qed

text \<open>
  The route with an engine that raises: the upload is read and preprocessed, the engine
  fails, and the response is the error \<open>tesseract failed\<close> with status 500, not the
  record of the empty text.
\<close>

theorem engine_failure_ends_request:
  "image_to_string (stub_libs failing_engine)
     (preprocess (stub_libs failing_engine) (one_pixel 7)) ''--oem 3 --psm 6'' =
     Inl ''engine failure'' \<and>
   predict (stub_libs failing_engine) NotFound (upload_field ''file'' [1, 0]) =
     Failed ''tesseract failed'' ''engine failure'' \<and>
   predict (stub_libs failing_engine) NotFound (upload_field ''file'' [1, 0]) \<noteq>
     Success (analyse NotFound [])"
  by code_simp

section \<open>Loading the image\<close>

text \<open>
  Claim C6. Under the contract of the decoders, for every upload that the codec or the
  fallback library reads, loading gives a bitmap with exactly three channels, and it
  gives a bitmap in these cases only; for an upload that neither reads, loading gives no
  bitmap and fails with the exception of the fallback library, which the route reports
  as \<open>server error\<close> with that message.
\<close>

theorem load_image_three_channels_or_error:
  assumes "decoder_contract L"
  shows "(case load_image L buf of
            Inr bmp \<Rightarrow>
              channels bmp = 3 \<and>
              (imdecode L buf \<noteq> None \<or> (\<exists>img. image_open_rgb L buf = Inr img))
          | Inl e \<Rightarrow> imdecode L buf = None \<and> image_open_rgb L buf = Inl e) \<and>
         (load_image L (content file) = Inl e \<and> pick_file files = Some file \<longrightarrow>
            predict L csv files = Failed ''server error'' e)"
proof -
  have c1: "channels img = 3" if "imdecode L buf = Some img" for img
    using assms that by (auto simp add: decoder_contract_def)
  have c2: "channels (cvtColor L img COLOR_RGB2BGR) = 3" if "image_open_rgb L buf = Inr img" for img
  proof -
    have "channels img = 3" using assms that by (auto simp add: decoder_contract_def)
    moreover have "channels (cvtColor L img COLOR_RGB2BGR) = channels img"
      using assms by (simp add: decoder_contract_def)
    ultimately show ?thesis by simp
  qed
  have a: "case load_image L buf of
            Inr bmp \<Rightarrow>
              channels bmp = 3 \<and>
              (imdecode L buf \<noteq> None \<or> (\<exists>img. image_open_rgb L buf = Inr img))
          | Inl e \<Rightarrow> imdecode L buf = None \<and> image_open_rgb L buf = Inl e"
  proof (cases "imdecode L buf")
    case (Some img)
    then show ?thesis using c1 by (simp add: load_image_def)
  next
    case None
    show ?thesis
    proof (cases "image_open_rgb L buf")
      case (Inl e)
      then show ?thesis using None by (simp add: load_image_def)
    next
      case (Inr img)
      then show ?thesis using None c2 by (simp add: load_image_def)
    qed
  qed
  have b: "predict L csv files = Failed ''server error'' e"
    if "load_image L (content file) = Inl e" "pick_file files = Some file"
    using that by (simp add: predict_def)
  show ?thesis using a b by blast
qed

theorem load_image_three_channels_or_error_witness:
  "load_image (stub_libs failing_engine) [1, 0] = Inr (one_pixel 7) \<and>
   channels (one_pixel 7) = 3 \<and>
   imdecode (stub_libs failing_engine) [2, 0] = None \<and>
   (\<exists>bmp. load_image (stub_libs failing_engine) [2, 0] = Inr bmp \<and> channels bmp = 3) \<and>
   imdecode (stub_libs failing_engine) [3, 0] = None \<and>
   image_open_rgb (stub_libs failing_engine) [3, 0] = Inl ''cannot identify image file'' \<and>
   load_image (stub_libs failing_engine) [3, 0] = Inl ''cannot identify image file'' \<and>
   predict (stub_libs failing_engine) NotFound (upload_field ''image'' [3, 0]) =
     Failed ''server error'' ''cannot identify image file''"
proof -
  let ?L = "stub_libs failing_engine"
  let ?file = "\<lparr> filename = ''label.jpg'', content = [3, 0] \<rparr>"
  have d: "decoder_contract ?L"
    by (simp add: decoder_contract_def stub_libs_def one_pixel_def split: list.splits)
  note t = load_image_three_channels_or_error [OF d]
  have l1: "load_image ?L [1, 0] = Inr (one_pixel 7)" by code_simp
  have l2: "load_image ?L [2, 0] = Inr (cvtColor ?L (one_pixel 9) COLOR_RGB2BGR)" by code_simp
  have l3: "load_image ?L [3, 0] = Inl ''cannot identify image file''" by code_simp
  have l3': "load_image ?L (content ?file) = Inl ''cannot identify image file''" by code_simp
  have f: "pick_file (upload_field ''image'' [3, 0]) = Some ?file" by code_simp
  have i2: "imdecode ?L [2, 0] = None" by code_simp
  have a1: "channels (one_pixel 7) = 3" using t [of "[1, 0]"] l1 by simp
  have a2: "\<exists>bmp. load_image ?L [2, 0] = Inr bmp \<and> channels bmp = 3"
    using t [of "[2, 0]"] l2 by simp
  have a3: "imdecode ?L [3, 0] = None \<and>
      image_open_rgb ?L [3, 0] = Inl ''cannot identify image file''"
    using t [of "[3, 0]"] l3 by simp
  have a4: "predict ?L NotFound (upload_field ''image'' [3, 0]) =
      Failed ''server error'' ''cannot identify image file''"
    using t [of _ ?file "''cannot identify image file''" "upload_field ''image'' [3, 0]" NotFound]
      l3' f by blast
  show ?thesis using l1 a1 i2 a2 a3 l3 a4 by simp
qed

end
